theory Spec2Isabelle
  imports Main
begin

section \<open>Data model\<close>

text \<open>
  The bot of \<^verbatim>\<open>SmartestBotClient\<close> works on integer grid coordinates
  (\<^verbatim>\<open>sf::Vector2i\<close>), a \<^verbatim>\<open>Player\<close> carrying a position, and a
  \<^verbatim>\<open>GameState\<close> carrying the grid.  The header that declares them is not
  part of the sources, so the declarations below follow the data model of the
  specification.
\<close>

type_synonym Vector2i = "int \<times> int"

text \<open>\<^verbatim>\<open>operator+\<close> of \<^verbatim>\<open>sf::Vector2i\<close>: componentwise addition.\<close>

fun vadd :: "Vector2i \<Rightarrow> Vector2i \<Rightarrow> Vector2i" where
  "vadd (x1, y1) (x2, y2) = (x1 + x2, y1 + y2)"

text \<open>
  Modelled from the spec: the enumeration \<^verbatim>\<open>Direction\<close> (declared in the
  missing header).  The specification fixes four directions in the canonical
  order Up, Down, Left, Right.
\<close>

datatype Direction = Up | Down | Left | Right

text \<open>
  Modelled from the spec: \<^verbatim>\<open>getDirectionFromValue\<close> (missing header) maps the
  loop counter 0..3 to the directions in canonical order.  The loops of the
  bot never pass another value.
\<close>

definition getDirectionFromValue :: "nat \<Rightarrow> Direction" where
  "getDirectionFromValue dir_value =
     (if dir_value = 0 then Up
      else if dir_value = 1 then Down
      else if dir_value = 2 then Left
      else Right)"

text \<open>
  Modelled from the spec: \<^verbatim>\<open>getDirectionVector\<close> (missing header) gives the
  unit displacement of a direction; the y axis grows downwards, as on the
  3x3 scenario of the specification where a player at (0,0) can only go
  Right or Down.
\<close>

fun getDirectionVector :: "Direction \<Rightarrow> Vector2i" where
  "getDirectionVector Up = (0, -1)"
| "getDirectionVector Down = (0, 1)"
| "getDirectionVector Left = (-1, 0)"
| "getDirectionVector Right = (1, 0)"

text \<open>
  Modelled from the spec: \<^verbatim>\<open>Player\<close> (missing header) is an identity and a
  current position.
\<close>

record Player =
  name :: string
  position :: Vector2i

text \<open>
  Modelled from the spec: \<^verbatim>\<open>GameState\<close> (missing header) is a grid of fixed
  width and height that maps a cell coordinate to its occupancy (0 is free,
  anything else is blocked), plus the list of players.  The two dimensions
  are sizes (they size the marker of \<^verbatim>\<open>floodFill\<close>), hence natural
  numbers; coordinates are signed, since a step from the border leaves the
  grid.  Every read and write of a cell in the bot follows a successful
  \<^verbatim>\<open>isInsideGrid\<close>.
\<close>

record GameState =
  gridWidth :: nat
  gridHeight :: nat
  grid :: "Vector2i \<Rightarrow> int"
  players :: "Player list"

text \<open>
  Modelled from the spec: \<^verbatim>\<open>GameState::isInsideGrid\<close> (missing header): a
  position is valid iff both components lie within [0, width) x [0, height).
\<close>

definition isInsideGrid :: "GameState \<Rightarrow> Vector2i \<Rightarrow> bool" where
  "isInsideGrid gameState pos =
     (0 \<le> fst pos \<and> fst pos < int (gridWidth gameState) \<and>
      0 \<le> snd pos \<and> snd pos < int (gridHeight gameState))"

text \<open>
  Modelled from the spec: \<^verbatim>\<open>GameState::getGridCell\<close> and
  \<^verbatim>\<open>GameState::setGridCell\<close> (missing header) read and write the occupancy
  of one cell.
\<close>

definition getGridCell :: "GameState \<Rightarrow> Vector2i \<Rightarrow> int" where
  "getGridCell gameState pos = grid gameState pos"

definition setGridCell :: "GameState \<Rightarrow> Vector2i \<Rightarrow> int \<Rightarrow> GameState" where
  "setGridCell gameState pos v = gameState\<lparr>grid := (grid gameState)(pos := v)\<rparr>"

text \<open>
  The fields of \<^verbatim>\<open>SmartestBotClient\<close> that the decision code uses: the
  bot's own name (the field \<^verbatim>\<open>name\<close>, called \<open>bot_name\<close> here because
  \<open>name\<close> is the field of \<open>Player\<close>), the snapshot of the turn and the two
  players.  The connection only delivers the snapshot and the random
  generator is never consulted.
\<close>

record Bot =
  bot_name :: string
  state :: GameState
  my_player :: Player
  opponent :: Player

definition INT_MIN :: int where
  "INT_MIN = - 2147483648"

definition INT_MAX :: int where
  "INT_MAX = 2147483647"

definition MAX_DEPTH :: int where
  "MAX_DEPTH = 3"

section \<open>Move legality and move application\<close>

definition is_valid_move :: "GameState \<Rightarrow> Player \<Rightarrow> Direction \<Rightarrow> bool" where
  "is_valid_move gameState player direction =
     (let new_pos = vadd (position player) (getDirectionVector direction) in
      if \<not> isInsideGrid gameState new_pos then False
      else if getGridCell gameState new_pos \<noteq> 0 then False
      else True)"

text \<open>
  \<^verbatim>\<open>movePlayer\<close> takes the game state and the player by reference and
  writes both; the model returns the two written objects.
\<close>

definition movePlayer :: "GameState \<Rightarrow> Player \<Rightarrow> Direction \<Rightarrow> GameState \<times> Player" where
  "movePlayer gameState player dir =
     (let new_pos = vadd (position player) (getDirectionVector dir) in
      (setGridCell gameState new_pos 1, player\<lparr>position := new_pos\<rparr>))"

section \<open>Game-over detection\<close>

text \<open>
  The loop of \<^verbatim>\<open>game_over\<close> over \<^verbatim>\<open>dir_value\<close>, with the two flags as
  loop state.
\<close>

function game_over_loop :: "Bot \<Rightarrow> GameState \<Rightarrow> nat \<Rightarrow> bool \<times> bool \<Rightarrow> bool \<times> bool" where
  "game_over_loop b gameState dir_value (my_moves, opp_moves) =
     (if dir_value < 4 then
        let dir = getDirectionFromValue dir_value;
            my_moves' = (if is_valid_move gameState (my_player b) dir then True else my_moves);
            opp_moves' = (if is_valid_move gameState (opponent b) dir then True else opp_moves)
        in game_over_loop b gameState (dir_value + 1) (my_moves', opp_moves')
      else (my_moves, opp_moves))"
  by pat_completeness auto
termination
  by (relation "measure (\<lambda>(b, gameState, dir_value, flags). 4 - dir_value)") auto

declare game_over_loop.simps [simp del]

definition game_over :: "Bot \<Rightarrow> GameState \<Rightarrow> bool" where
  "game_over b gameState =
     (let (my_moves, opp_moves) = game_over_loop b gameState 0 (False, False)
      in \<not> (my_moves \<or> opp_moves))"

section \<open>Flood fill\<close>

text \<open>
  \<^verbatim>\<open>floodFill\<close> keeps a per-call marker \<^verbatim>\<open>visited\<close>, a vector of
  \<^verbatim>\<open>gridWidth\<close> vectors of \<^verbatim>\<open>gridHeight\<close> booleans, and indexes it with
  \<^verbatim>\<open>visited[pos.x][pos.y]\<close>.  Indexing a vector out of range is undefined
  behaviour in the source; the model makes it the error value
  \<open>OutOfRange\<close>, so that "no out-of-range access" is a statement about the
  result.
\<close>

datatype error = OutOfRange

definition visited_get :: "bool list list \<Rightarrow> Vector2i \<Rightarrow> error + bool" where
  "visited_get visited pos =
     (if 0 \<le> fst pos \<and> nat (fst pos) < length visited \<and>
         0 \<le> snd pos \<and> nat (snd pos) < length (visited ! nat (fst pos))
      then Inr (visited ! nat (fst pos) ! nat (snd pos))
      else Inl OutOfRange)"

definition visited_set :: "bool list list \<Rightarrow> Vector2i \<Rightarrow> bool \<Rightarrow> error + bool list list" where
  "visited_set visited pos v =
     (if 0 \<le> fst pos \<and> nat (fst pos) < length visited \<and>
         0 \<le> snd pos \<and> nat (snd pos) < length (visited ! nat (fst pos))
      then Inr (visited[nat (fst pos) := (visited ! nat (fst pos))[nat (snd pos) := v]])
      else Inl OutOfRange)"

text \<open>
  The inner loop of \<^verbatim>\<open>floodFill\<close>: the four neighbours of \<^verbatim>\<open>pos\<close> are
  pushed to the back of the queue in the order of \<^verbatim>\<open>dir_value\<close>.
\<close>

function push_neighbours :: "Vector2i \<Rightarrow> nat \<Rightarrow> Vector2i list \<Rightarrow> Vector2i list" where
  "push_neighbours pos dir_value queue =
     (if dir_value < 4 then
        let dir = getDirectionFromValue dir_value;
            next_pos = vadd pos (getDirectionVector dir)
        in push_neighbours pos (dir_value + 1) (queue @ [next_pos])
      else queue)"
  by pat_completeness auto
termination
  by (relation "measure (\<lambda>(pos, dir_value, queue). 4 - dir_value)") auto

declare push_neighbours.simps [simp del]

text \<open>
  The number of cells not yet marked; it decreases whenever the loop of
  \<^verbatim>\<open>floodFill\<close> enlarges the queue, which is why the loop terminates.
\<close>

definition unvisited :: "bool list list \<Rightarrow> nat" where
  "unvisited visited = sum_list (map (\<lambda>row. length (filter Not row)) visited)"

text \<open>
  The \<^verbatim>\<open>while (!queue.empty())\<close> loop of \<^verbatim>\<open>floodFill\<close>.  The queue is a
  list (front at the head, \<^verbatim>\<open>push\<close> appends), the loop state is the queue,
  the marker and \<^verbatim>\<open>area\<close>.  The three \<^verbatim>\<open>continue\<close> tests come in the
  order of the source: outside the grid, already visited, cell not free.
\<close>

function floodFill_loop :: "GameState \<Rightarrow> Vector2i list \<Rightarrow> bool list list \<Rightarrow> int \<Rightarrow> error + int" where
  "floodFill_loop gameState [] visited area = Inr area"
| "floodFill_loop gameState (pos # queue) visited area =
     (if \<not> isInsideGrid gameState pos then floodFill_loop gameState queue visited area
      else
        case visited_get visited pos of
          Inl e \<Rightarrow> Inl e
        | Inr seen \<Rightarrow>
            if seen then floodFill_loop gameState queue visited area
            else if getGridCell gameState pos \<noteq> 0 then floodFill_loop gameState queue visited area
            else
              case visited_set visited pos True of
                Inl e \<Rightarrow> Inl e
              | Inr visited' \<Rightarrow>
                  floodFill_loop gameState (push_neighbours pos 0 queue) visited' (area + 1))"
  by pat_completeness auto
termination
proof (relation "measures [\<lambda>(gameState, queue, visited, area). unvisited visited,
                           \<lambda>(gameState, queue, visited, area). length queue]", goal_cases)
  case 1 show ?case by simp
next
  case 2 then show ?case by simp
next
  case 3 then show ?case by simp
next
  case 4 then show ?case by simp
next
  case (5 gameState pos queue visited area seen visited')
  have row: "\<And>(row :: bool list) j. j < length row \<Longrightarrow> \<not> row ! j \<Longrightarrow>
      length (filter Not (row[j := True])) < length (filter Not row)"
  proof -
    fix row :: "bool list" and j
    show "j < length row \<Longrightarrow> \<not> row ! j \<Longrightarrow>
      length (filter Not (row[j := True])) < length (filter Not row)"
    proof (induction row arbitrary: j)
      case Nil then show ?case by simp
    next
      case (Cons a row)
      then show ?case by (cases j) auto
    qed
  qed
  have rows: "\<And>(vs :: bool list list) i r. i < length vs \<Longrightarrow>
      length (filter Not r) < length (filter Not (vs ! i)) \<Longrightarrow>
      unvisited (vs[i := r]) < unvisited vs"
  proof -
    fix vs :: "bool list list" and i r
    show "i < length vs \<Longrightarrow> length (filter Not r) < length (filter Not (vs ! i)) \<Longrightarrow>
      unvisited (vs[i := r]) < unvisited vs"
      unfolding unvisited_def
    proof (induction vs arbitrary: i)
      case Nil then show ?case by simp
    next
      case (Cons a vs)
      then show ?case by (cases i) auto
    qed
  qed
  from 5 show ?case
    by (auto simp add: visited_get_def visited_set_def split: if_splits intro!: rows row)
qed

definition floodFill :: "GameState \<Rightarrow> Vector2i \<Rightarrow> error + int" where
  "floodFill gameState start_pos =
     floodFill_loop gameState [start_pos]
       (replicate (gridWidth gameState) (replicate (gridHeight gameState) False)) 0"

section \<open>Reachable cells\<close>

text \<open>
  What the specification calls the reachable area, stated without the
  algorithm: the free cells are the in-bounds cells holding 0; two cells are
  adjacent when they differ by one of the four unit vectors; \<open>reach A Q\<close> is
  the set of cells of \<open>A\<close> that a path of adjacent cells of \<open>A\<close> connects to
  a cell of \<open>Q\<close>; the area reachable from a start cell is
  \<open>reach\<close> within the free cells from that cell.  \<open>visited_cells\<close> and
  \<open>shaped\<close> read the marker of the loop as a set of cells of the right
  dimensions.
\<close>

definition free_cells :: "GameState \<Rightarrow> Vector2i set" where
  "free_cells gameState = {pos. isInsideGrid gameState pos \<and> getGridCell gameState pos = 0}"

definition adjacent :: "Vector2i \<Rightarrow> Vector2i \<Rightarrow> bool" where
  "adjacent p q =
     (q = vadd p (getDirectionVector Up) \<or> q = vadd p (getDirectionVector Down) \<or>
      q = vadd p (getDirectionVector Left) \<or> q = vadd p (getDirectionVector Right))"

inductive_set reach :: "Vector2i set \<Rightarrow> Vector2i set \<Rightarrow> Vector2i set"
  for A :: "Vector2i set" and Q :: "Vector2i set" where
  source: "q \<in> Q \<Longrightarrow> q \<in> A \<Longrightarrow> q \<in> reach A Q"
| step: "p \<in> reach A Q \<Longrightarrow> q \<in> A \<Longrightarrow> adjacent p q \<Longrightarrow> q \<in> reach A Q"

definition reachable :: "GameState \<Rightarrow> Vector2i \<Rightarrow> Vector2i set" where
  "reachable gameState start_pos = reach (free_cells gameState) {start_pos}"

definition visited_cells :: "bool list list \<Rightarrow> Vector2i set" where
  "visited_cells visited = {pos. visited_get visited pos = Inr True}"

definition shaped :: "GameState \<Rightarrow> bool list list \<Rightarrow> bool" where
  "shaped gameState visited =
     (length visited = gridWidth gameState \<and>
      list_all (\<lambda>row. length row = gridHeight gameState) visited)"


section \<open>The free cells are finite and shrink with every move\<close>

lemma isInside_finite: "finite {pos. isInsideGrid gs pos}"
proof -
  have "{pos. isInsideGrid gs pos} \<subseteq> {0..<int (gridWidth gs)} \<times> {0..<int (gridHeight gs)}"
    by (auto simp add: isInsideGrid_def)
  then show ?thesis by (rule finite_subset) simp
qed

lemma free_cells_finite: "finite (free_cells gs)"
  by (rule finite_subset[OF _ isInside_finite[of gs]]) (auto simp add: free_cells_def)


lemma movePlayer_free_cells:
  assumes "is_valid_move gameState player dir"
  shows "card (free_cells (fst (movePlayer gameState player dir))) < card (free_cells gameState)"
proof -
  let ?p = "vadd (position player) (getDirectionVector dir)"
  from assms have p: "?p \<in> free_cells gameState"
    by (simp add: is_valid_move_def free_cells_def Let_def split: if_splits)
  have "free_cells (fst (movePlayer gameState player dir)) = free_cells gameState - {?p}"
    by (auto simp add: movePlayer_def Let_def free_cells_def setGridCell_def
        isInsideGrid_def getGridCell_def)
  then show ?thesis
    using card_Diff1_less[OF free_cells_finite p] by simp
qed


section \<open>Evaluation and search\<close>

text \<open>
  \<^verbatim>\<open>evaluate\<close>: the difference of the two flood-filled areas, from the
  positions held in the fields \<^verbatim>\<open>my_player\<close> and \<^verbatim>\<open>opponent\<close> of the bot.
  \<open>floodFill\<close> never yields \<open>OutOfRange\<close> (lemma \<open>floodFill_count\<close> below),
  so \<open>area_of\<close> only unwraps its result.
\<close>

definition area_of :: "error + int \<Rightarrow> int" where
  "area_of r = (case r of Inr area \<Rightarrow> area | Inl e \<Rightarrow> 0)"

definition evaluate :: "Bot \<Rightarrow> GameState \<Rightarrow> int" where
  "evaluate b gameState =
     (let my_area = area_of (floodFill gameState (position (my_player b)));
          opp_area = area_of (floodFill gameState (position (opponent b)))
      in my_area - opp_area)"


text \<open>
  \<^verbatim>\<open>minimax\<close> with its two \<^verbatim>\<open>for\<close> loops over \<^verbatim>\<open>dir_value\<close>.  Each loop
  carries the variables the source updates (\<^verbatim>\<open>maxEval\<close> and \<^verbatim>\<open>alpha\<close>,
  or \<^verbatim>\<open>minEval\<close> and \<^verbatim>\<open>beta\<close>); \<^verbatim>\<open>break\<close> returns the accumulator at
  once.  The source moves a copy of the player (\<^verbatim>\<open>newMyPlayer\<close>,
  \<^verbatim>\<open>newOpponent\<close>) and then drops it: the recursive call receives the new
  game state only, and keeps reading the fields \<^verbatim>\<open>my_player\<close> and
  \<^verbatim>\<open>opponent\<close> of the bot, here \<open>b\<close>.  The recursion ends because every
  recursive call has one free cell fewer.
\<close>

function minimax :: "Bot \<Rightarrow> GameState \<Rightarrow> int \<Rightarrow> bool \<Rightarrow> int \<Rightarrow> int \<Rightarrow> int"
  and max_loop :: "Bot \<Rightarrow> GameState \<Rightarrow> int \<Rightarrow> nat \<Rightarrow> int \<Rightarrow> int \<Rightarrow> int \<Rightarrow> int"
  and min_loop :: "Bot \<Rightarrow> GameState \<Rightarrow> int \<Rightarrow> nat \<Rightarrow> int \<Rightarrow> int \<Rightarrow> int \<Rightarrow> int"
where
  "minimax b gameState depth maximizingPlayer alpha beta =
     (if depth = 0 \<or> game_over b gameState then evaluate b gameState
      else if maximizingPlayer then max_loop b gameState depth 0 INT_MIN alpha beta
      else min_loop b gameState depth 0 INT_MAX alpha beta)"
| "max_loop b gameState depth dir_value maxEval alpha beta =
     (if dir_value < 4 then
        let dir = getDirectionFromValue dir_value in
        if is_valid_move gameState (my_player b) dir then
          let (newGameState, newMyPlayer) = movePlayer gameState (my_player b) dir;
              eval = minimax b newGameState (depth - 1) False alpha beta;
              maxEval' = max maxEval eval;
              alpha' = max alpha eval
          in if beta \<le> alpha' then maxEval'
             else max_loop b gameState depth (dir_value + 1) maxEval' alpha' beta
        else max_loop b gameState depth (dir_value + 1) maxEval alpha beta
      else maxEval)"
| "min_loop b gameState depth dir_value minEval alpha beta =
     (if dir_value < 4 then
        let dir = getDirectionFromValue dir_value in
        if is_valid_move gameState (opponent b) dir then
          let (newGameState, newOpponent) = movePlayer gameState (opponent b) dir;
              eval = minimax b newGameState (depth - 1) True alpha beta;
              minEval' = min minEval eval;
              beta' = min beta eval
          in if beta' \<le> alpha then minEval'
             else min_loop b gameState depth (dir_value + 1) minEval' alpha beta'
        else min_loop b gameState depth (dir_value + 1) minEval alpha beta
      else minEval)"
  by pat_completeness auto
termination
proof (relation "measures
    [\<lambda>x. case x of
        Inl (b, gameState, depth, maximizingPlayer, alpha, beta) \<Rightarrow> card (free_cells gameState)
      | Inr (Inl (b, gameState, depth, dir_value, maxEval, alpha, beta)) \<Rightarrow> card (free_cells gameState)
      | Inr (Inr (b, gameState, depth, dir_value, minEval, alpha, beta)) \<Rightarrow> card (free_cells gameState),
     \<lambda>x. case x of Inl _ \<Rightarrow> 1 | Inr _ \<Rightarrow> 0,
     \<lambda>x. case x of
        Inl _ \<Rightarrow> 0
      | Inr (Inl (b, gameState, depth, dir_value, maxEval, alpha, beta)) \<Rightarrow> 4 - dir_value
      | Inr (Inr (b, gameState, depth, dir_value, minEval, alpha, beta)) \<Rightarrow> 4 - dir_value]",
    goal_cases)
  case 1 show ?case by simp
next
  case 2 then show ?case by simp
next
  case 3 then show ?case by simp
next
  case (4 b gameState depth dir_value maxEval alpha beta x xa y)
  then show ?case
    using movePlayer_free_cells[of gameState "my_player b" "getDirectionFromValue dir_value"]
    by (simp add: fst_def split: prod.splits)
next
  case 5 then show ?case by simp
next
  case 6 then show ?case by simp
next
  case (7 b gameState depth dir_value minEval alpha beta x xa y)
  then show ?case
    using movePlayer_free_cells[of gameState "opponent b" "getDirectionFromValue dir_value"]
    by (simp add: fst_def split: prod.splits)
next
  case 8 then show ?case by simp
next
  case 9 then show ?case by simp
qed

declare minimax.simps [simp del] max_loop.simps [simp del] min_loop.simps [simp del]

text \<open>
  The specification's full minimax traversal of the same tree: the same
  search with the two \<^verbatim>\<open>break\<close> statements (and so \<^verbatim>\<open>alpha\<close> and
  \<^verbatim>\<open>beta\<close>) removed.  It is what the alpha-beta search is compared with.
\<close>

function unpruned :: "Bot \<Rightarrow> GameState \<Rightarrow> int \<Rightarrow> bool \<Rightarrow> int"
  and unpruned_max_loop :: "Bot \<Rightarrow> GameState \<Rightarrow> int \<Rightarrow> nat \<Rightarrow> int \<Rightarrow> int"
  and unpruned_min_loop :: "Bot \<Rightarrow> GameState \<Rightarrow> int \<Rightarrow> nat \<Rightarrow> int \<Rightarrow> int"
where
  "unpruned b gameState depth maximizingPlayer =
     (if depth = 0 \<or> game_over b gameState then evaluate b gameState
      else if maximizingPlayer then unpruned_max_loop b gameState depth 0 INT_MIN
      else unpruned_min_loop b gameState depth 0 INT_MAX)"
| "unpruned_max_loop b gameState depth dir_value maxEval =
     (if dir_value < 4 then
        let dir = getDirectionFromValue dir_value in
        if is_valid_move gameState (my_player b) dir then
          let (newGameState, newMyPlayer) = movePlayer gameState (my_player b) dir;
              eval = unpruned b newGameState (depth - 1) False
          in unpruned_max_loop b gameState depth (dir_value + 1) (max maxEval eval)
        else unpruned_max_loop b gameState depth (dir_value + 1) maxEval
      else maxEval)"
| "unpruned_min_loop b gameState depth dir_value minEval =
     (if dir_value < 4 then
        let dir = getDirectionFromValue dir_value in
        if is_valid_move gameState (opponent b) dir then
          let (newGameState, newOpponent) = movePlayer gameState (opponent b) dir;
              eval = unpruned b newGameState (depth - 1) True
          in unpruned_min_loop b gameState depth (dir_value + 1) (min minEval eval)
        else unpruned_min_loop b gameState depth (dir_value + 1) minEval
      else minEval)"
  by pat_completeness auto
termination
proof (relation "measures
    [\<lambda>x. case x of
        Inl (b, gameState, depth, maximizingPlayer) \<Rightarrow> card (free_cells gameState)
      | Inr (Inl (b, gameState, depth, dir_value, maxEval)) \<Rightarrow> card (free_cells gameState)
      | Inr (Inr (b, gameState, depth, dir_value, minEval)) \<Rightarrow> card (free_cells gameState),
     \<lambda>x. case x of Inl _ \<Rightarrow> 1 | Inr _ \<Rightarrow> 0,
     \<lambda>x. case x of
        Inl _ \<Rightarrow> 0
      | Inr (Inl (b, gameState, depth, dir_value, maxEval)) \<Rightarrow> 4 - dir_value
      | Inr (Inr (b, gameState, depth, dir_value, minEval)) \<Rightarrow> 4 - dir_value]",
    goal_cases)
  case 1 show ?case by simp
next
  case 2 then show ?case by simp
next
  case 3 then show ?case by simp
next
  case (4 b gameState depth dir_value maxEval x xa y)
  then show ?case
    using movePlayer_free_cells[of gameState "my_player b" "getDirectionFromValue dir_value"]
    by (simp add: fst_def split: prod.splits)
next
  case 5 then show ?case by simp
next
  case 6 then show ?case by simp
next
  case (7 b gameState depth dir_value minEval x xa y)
  then show ?case
    using movePlayer_free_cells[of gameState "opponent b" "getDirectionFromValue dir_value"]
    by (simp add: fst_def split: prod.splits)
next
  case 8 then show ?case by simp
next
  case 9 then show ?case by simp
qed

declare unpruned.simps [simp del] unpruned_max_loop.simps [simp del]
  unpruned_min_loop.simps [simp del]

text \<open>
  \<open>child\<close> names the game state after one move; \<open>failsoft\<close> relates the
  value \<open>r\<close> that an alpha-beta search returns for the window
  (\<open>alpha\<close>, \<open>beta\<close>) to the true minimax value \<open>v\<close>: exact inside the
  window, a bound outside.
\<close>

definition child :: "GameState \<Rightarrow> Player \<Rightarrow> nat \<Rightarrow> GameState" where
  "child gameState player dir_value =
     fst (movePlayer gameState player (getDirectionFromValue dir_value))"

definition failsoft :: "int \<Rightarrow> int \<Rightarrow> int \<Rightarrow> int \<Rightarrow> bool" where
  "failsoft alpha beta v r =
     ((r \<le> alpha \<longrightarrow> v \<le> r) \<and> (alpha < r \<and> r < beta \<longrightarrow> v = r) \<and> (beta \<le> r \<longrightarrow> r \<le> v))"


section \<open>Decision driver\<close>

text \<open>
  \<^verbatim>\<open>decideMove\<close> is a method of the bot object: the model returns the
  chosen direction together with the bot's fields after the call.  The loop
  copies \<^verbatim>\<open>state\<close> and \<^verbatim>\<open>my_player\<close> into locals, moves the copies and
  searches from the moved copy of the state.
\<close>

function decideMove_loop :: "Bot \<Rightarrow> nat \<Rightarrow> int \<Rightarrow> Direction \<Rightarrow> Direction \<times> Bot" where
  "decideMove_loop b dir_value bestScore bestMove =
     (if dir_value < 4 then
        let dir = getDirectionFromValue dir_value in
        if is_valid_move (state b) (my_player b) dir then
          let newGameState = state b;
              newMyPlayer = my_player b;
              (newGameState, newMyPlayer) = movePlayer newGameState newMyPlayer dir;
              score = minimax b newGameState (MAX_DEPTH - 1) False INT_MIN INT_MAX
          in if score > bestScore then decideMove_loop b (dir_value + 1) score dir
             else decideMove_loop b (dir_value + 1) bestScore bestMove
        else decideMove_loop b (dir_value + 1) bestScore bestMove
      else (bestMove, b))"
  by pat_completeness auto
termination
  by (relation "measure (\<lambda>(b, dir_value, bestScore, bestMove). 4 - dir_value)") auto

declare decideMove_loop.simps [simp del]

definition decideMove :: "Bot \<Rightarrow> Direction \<times> Bot" where
  "decideMove b = decideMove_loop b 0 INT_MIN Up"

text \<open>The score that \<^verbatim>\<open>decideMove\<close> computes for the direction of a counter value.\<close>

definition score_of :: "Bot \<Rightarrow> nat \<Rightarrow> int" where
  "score_of b dir_value =
     minimax b (child (state b) (my_player b) dir_value) (MAX_DEPTH - 1) False INT_MIN INT_MAX"

text \<open>
  A counter value stands for a legal move of the bot in the snapshot of the
  turn.
\<close>

definition legal :: "Bot \<Rightarrow> nat \<Rightarrow> bool" where
  "legal b dir_value =
     (dir_value < 4 \<and> is_valid_move (state b) (my_player b) (getDirectionFromValue dir_value))"

text \<open>
  \<^verbatim>\<open>receiveGameState\<close>: the snapshot delivered by the connection (here the
  argument \<open>received\<close>) becomes \<^verbatim>\<open>state\<close>, and the loop over its players
  stores the one carrying the bot's name in \<^verbatim>\<open>my_player\<close> and every other
  one in \<^verbatim>\<open>opponent\<close>.
\<close>

fun receive_loop :: "Bot \<Rightarrow> Player list \<Rightarrow> Bot" where
  "receive_loop b [] = b"
| "receive_loop b (player # rest) =
     (if name player = bot_name b then receive_loop (b\<lparr>my_player := player\<rparr>) rest
      else receive_loop (b\<lparr>opponent := player\<rparr>) rest)"

definition receiveGameState :: "Bot \<Rightarrow> GameState \<Rightarrow> Bot" where
  "receiveGameState b received = receive_loop (b\<lparr>state := received\<rparr>) (players received)"

text \<open>
  The game states that one decision can hand to \<^verbatim>\<open>minimax\<close> and
  \<^verbatim>\<open>evaluate\<close>: the snapshot of the turn, and every state obtained from
  such a state by a move that \<^verbatim>\<open>is_valid_move\<close> accepts for
  \<^verbatim>\<open>my_player\<close> or for \<^verbatim>\<open>opponent\<close>.
\<close>

inductive_set search_states :: "Bot \<Rightarrow> GameState set" for b :: Bot where
  root: "state b \<in> search_states b"
| self_move: "gameState \<in> search_states b \<Longrightarrow> is_valid_move gameState (my_player b) dir \<Longrightarrow>
     fst (movePlayer gameState (my_player b) dir) \<in> search_states b"
| opponent_move: "gameState \<in> search_states b \<Longrightarrow> is_valid_move gameState (opponent b) dir \<Longrightarrow>
     fst (movePlayer gameState (opponent b) dir) \<in> search_states b"

section \<open>Concrete boards\<close>

text \<open>
  A 3x3 board after one round: the bot started at (1,0) and went Left to
  (0,0), the opponent started at (2,2) and went Left to (1,2).  Cells hold
  the number of the player whose trail covers them.  The bot can only go
  Down; the opponent can go Up or Left.
\<close>

definition board3 :: GameState where
  "board3 = \<lparr>gridWidth = 3, gridHeight = 3,
              grid = (\<lambda>pos. 0)((1, 0) := 1, (0, 0) := 1, (2, 2) := 2, (1, 2) := 2),
              players = [\<lparr>name = ''me'', position = (0, 0)\<rparr>,
                         \<lparr>name = ''other'', position = (1, 2)\<rparr>]\<rparr>"

definition bot3 :: Bot where
  "bot3 = \<lparr>bot_name = ''me'', state = board3,
           my_player = \<lparr>name = ''me'', position = (0, 0)\<rparr>,
           opponent = \<lparr>name = ''other'', position = (1, 2)\<rparr>\<rparr>"

text \<open>A bot that has not received a snapshot yet.\<close>

definition idle_bot :: Bot where
  "idle_bot = \<lparr>bot_name = ''me'',
               state = \<lparr>gridWidth = 0, gridHeight = 0, grid = (\<lambda>pos. 0), players = []\<rparr>,
               my_player = \<lparr>name = '''', position = (0, 0)\<rparr>,
               opponent = \<lparr>name = '''', position = (0, 0)\<rparr>\<rparr>"

text \<open>A 2x1 board filled by the two players: nobody can move.\<close>

definition board2 :: GameState where
  "board2 = \<lparr>gridWidth = 2, gridHeight = 1,
              grid = (\<lambda>pos. 0)((0, 0) := 1, (1, 0) := 2),
              players = [\<lparr>name = ''me'', position = (0, 0)\<rparr>,
                         \<lparr>name = ''other'', position = (1, 0)\<rparr>]\<rparr>"

definition bot2 :: Bot where
  "bot2 = \<lparr>bot_name = ''me'', state = board2,
           my_player = \<lparr>name = ''me'', position = (0, 0)\<rparr>,
           opponent = \<lparr>name = ''other'', position = (1, 0)\<rparr>\<rparr>"

text \<open>
  The scenario of the specification: a 3x3 grid without any blocked cell,
  the bot at (0,0) and the opponent at (2,2).  The three plies are the first
  moves that \<^verbatim>\<open>decideMove\<close> and \<^verbatim>\<open>minimax\<close> try from it: the bot goes
  Down, the opponent goes Up, and the bot, still taken to stand at (0,0),
  goes Right.  Each ply is the pair that \<^verbatim>\<open>movePlayer\<close> writes: the new
  state and the moved copy of the player.
\<close>

definition scenario_board :: GameState where
  "scenario_board = \<lparr>gridWidth = 3, gridHeight = 3, grid = (\<lambda>pos. 0),
      players = [\<lparr>name = ''me'', position = (0, 0)\<rparr>,
                 \<lparr>name = ''other'', position = (2, 2)\<rparr>]\<rparr>"

definition scenario_bot :: Bot where
  "scenario_bot = \<lparr>bot_name = ''me'', state = scenario_board,
      my_player = \<lparr>name = ''me'', position = (0, 0)\<rparr>,
      opponent = \<lparr>name = ''other'', position = (2, 2)\<rparr>\<rparr>"

definition scenario_ply1 :: "GameState \<times> Player" where
  "scenario_ply1 = movePlayer scenario_board (my_player scenario_bot) Down"

definition scenario_ply2 :: "GameState \<times> Player" where
  "scenario_ply2 = movePlayer (fst scenario_ply1) (opponent scenario_bot) Up"

definition scenario_ply3 :: "GameState \<times> Player" where
  "scenario_ply3 = movePlayer (fst scenario_ply2) (my_player scenario_bot) Right"

text \<open>
  A 3x3 board after one round in which both players ran into a corner: the
  bot started at (1,0) and went Left to (0,0), the opponent started at (2,1)
  and went Down to (2,2).  The bot can only go Down, the opponent can only
  go Left; the two plies are these moves.
\<close>

definition corner_board :: GameState where
  "corner_board = \<lparr>gridWidth = 3, gridHeight = 3,
      grid = (\<lambda>pos. 0)((1, 0) := 1, (0, 0) := 1, (2, 1) := 2, (2, 2) := 2),
      players = [\<lparr>name = ''me'', position = (0, 0)\<rparr>,
                 \<lparr>name = ''other'', position = (2, 2)\<rparr>]\<rparr>"

definition corner_bot :: Bot where
  "corner_bot = \<lparr>bot_name = ''me'', state = corner_board,
      my_player = \<lparr>name = ''me'', position = (0, 0)\<rparr>,
      opponent = \<lparr>name = ''other'', position = (2, 2)\<rparr>\<rparr>"

definition corner_ply1 :: "GameState \<times> Player" where
  "corner_ply1 = movePlayer corner_board (my_player corner_bot) Down"

definition corner_ply2 :: "GameState \<times> Player" where
  "corner_ply2 = movePlayer (fst corner_ply1) (opponent corner_bot) Left"

text \<open>
  Two 3x3 grids for the flood fill: one without any obstacle, one whose
  centre cell is free and whose four neighbours are blocked.
\<close>

definition free_board :: GameState where
  "free_board = \<lparr>gridWidth = 3, gridHeight = 3, grid = (\<lambda>pos. 0), players = []\<rparr>"

definition pocket_board :: GameState where
  "pocket_board = \<lparr>gridWidth = 3, gridHeight = 3,
      grid = (\<lambda>pos. 0)((1, 0) := 1, (0, 1) := 1, (2, 1) := 1, (1, 2) := 1), players = []\<rparr>"

section \<open>Basic facts\<close>

lemma Direction_cases4:
  "(\<exists>d. P d) = (P Up \<or> P Down \<or> P Left \<or> P Right)"
proof
  assume "\<exists>d. P d"
  then obtain d where "P d" ..
  then show "P Up \<or> P Down \<or> P Left \<or> P Right" by (cases d) auto
qed auto

lemma getDirectionFromValue_simps [simp]:
  "getDirectionFromValue 0 = Up"
  "getDirectionFromValue (Suc 0) = Down"
  "getDirectionFromValue 1 = Down"
  "getDirectionFromValue 2 = Left"
  "getDirectionFromValue 3 = Right"
  by (simp_all add: getDirectionFromValue_def)

lemma game_over_loop_step:
  "game_over_loop b gs dir_value (m, p) =
     (if dir_value < 4 then
        game_over_loop b gs (Suc dir_value)
          (is_valid_move gs (my_player b) (getDirectionFromValue dir_value) \<or> m,
           is_valid_move gs (opponent b) (getDirectionFromValue dir_value) \<or> p)
      else (m, p))"
  by (subst game_over_loop.simps) (auto simp add: Let_def)

lemma game_over_loop_unroll:
  "game_over_loop b gs 0 (False, False) =
     (is_valid_move gs (my_player b) Up \<or> is_valid_move gs (my_player b) Down \<or>
      is_valid_move gs (my_player b) Left \<or> is_valid_move gs (my_player b) Right,
      is_valid_move gs (opponent b) Up \<or> is_valid_move gs (opponent b) Down \<or>
      is_valid_move gs (opponent b) Left \<or> is_valid_move gs (opponent b) Right)"
  by (simp add: game_over_loop_step getDirectionFromValue_def) blast

text \<open>
  \<^verbatim>\<open>game_over\<close> answers true exactly when no direction is legal from the
  position of the field \<^verbatim>\<open>my_player\<close> nor from that of the field
  \<^verbatim>\<open>opponent\<close>, whatever moves led to the state it is given.
\<close>

lemma game_over_fields:
  "game_over b gameState =
     ((\<nexists>d. is_valid_move gameState (my_player b) d) \<and>
      (\<nexists>d. is_valid_move gameState (opponent b) d))"
  unfolding game_over_def game_over_loop_unroll Direction_cases4
  by simp

section \<open>Flood fill counts the reachable cells\<close>

lemma reach_subset: "reach A Q \<subseteq> A"
proof
  fix c assume "c \<in> reach A Q"
  then show "c \<in> A" by (induction rule: reach.induct) auto
qed

lemma reach_drop:
  assumes "p \<notin> A"
  shows "reach A (insert p Q) = reach A Q"
proof (intro equalityI subsetI)
  fix c assume "c \<in> reach A (insert p Q)"
  then show "c \<in> reach A Q"
  proof (induction rule: reach.induct)
    case (source q)
    with assms show ?case by (auto intro: reach.source)
  next
    case (step x q)
    then show ?case by (auto intro: reach.step)
  qed
next
  fix c assume "c \<in> reach A Q"
  then show "c \<in> reach A (insert p Q)"
  proof (induction rule: reach.induct)
    case (source q)
    then show ?case by (auto intro: reach.source)
  next
    case (step x q)
    then show ?case by (auto intro: reach.step)
  qed
qed

lemma reach_visit:
  assumes "p \<in> A"
  shows "reach A (insert p Q) = insert p (reach (A - {p}) (Q \<union> {q. adjacent p q}))"
proof (intro equalityI subsetI)
  let ?A' = "A - {p}" and ?Q' = "Q \<union> {q. adjacent p q}"
  fix c assume "c \<in> reach A (insert p Q)"
  then show "c \<in> insert p (reach ?A' ?Q')"
  proof (induction rule: reach.induct)
    case (source q)
    show ?case
    proof (cases "q = p")
      case True then show ?thesis by simp
    next
      case False
      with source have "q \<in> ?Q'" "q \<in> ?A'" by simp_all
      then have "q \<in> reach ?A' ?Q'" by (rule reach.source)
      then show ?thesis by simp
    qed
  next
    case (step x q)
    show ?case
    proof (cases "q = p")
      case True then show ?thesis by simp
    next
      case qp: False
      with step have qA: "q \<in> ?A'" by simp
      show ?thesis
      proof (cases "x = p")
        case True
        with step have "q \<in> ?Q'" by simp
        then have "q \<in> reach ?A' ?Q'" using qA by (rule reach.source)
        then show ?thesis by simp
      next
        case False
        with step have "x \<in> reach ?A' ?Q'" by simp
        then have "q \<in> reach ?A' ?Q'" using qA \<open>adjacent x q\<close> by (rule reach.step)
        then show ?thesis by simp
      qed
    qed
  qed
next
  let ?A' = "A - {p}" and ?Q' = "Q \<union> {q. adjacent p q}"
  fix c assume c: "c \<in> insert p (reach ?A' ?Q')"
  have p: "p \<in> reach A (insert p Q)"
    by (rule reach.source) (simp_all add: assms)
  have "c \<in> reach A (insert p Q)" if "c \<in> reach ?A' ?Q'"
    using that
  proof (induction rule: reach.induct)
    case (source q)
    then have qA: "q \<in> A" by simp
    from source(1) show ?case
    proof
      assume "q \<in> Q"
      then have "q \<in> insert p Q" by simp
      then show ?thesis using qA by (rule reach.source)
    next
      assume "q \<in> {q. adjacent p q}"
      then have "adjacent p q" by simp
      with p qA show ?thesis by (rule reach.step)
    qed
  next
    case (step x q)
    then have "q \<in> A" by simp
    with step(4) show ?case using \<open>adjacent x q\<close> by (rule reach.step)
  qed
  with c p show "c \<in> reach A (insert p Q)" by blast
qed

lemma reach_finite: "finite A \<Longrightarrow> finite (reach A Q)"
  by (rule finite_subset[OF reach_subset])

lemma push_neighbours_eq:
  "push_neighbours pos 0 queue =
     queue @ [vadd pos (getDirectionVector Up), vadd pos (getDirectionVector Down),
              vadd pos (getDirectionVector Left), vadd pos (getDirectionVector Right)]"
proof -
  have step: "\<And>dv q. push_neighbours pos dv q =
      (if dv < 4 then push_neighbours pos (Suc dv)
          (q @ [vadd pos (getDirectionVector (getDirectionFromValue dv))]) else q)"
    by (subst push_neighbours.simps) (simp add: Let_def)
  show ?thesis
    by (simp add: step getDirectionFromValue_def)
qed

lemma set_push_neighbours:
  "set (push_neighbours pos 0 queue) = set queue \<union> {q. adjacent pos q}"
  by (auto simp add: push_neighbours_eq adjacent_def)

lemma shaped_get:
  assumes "shaped gs visited" "isInsideGrid gs pos"
  shows "visited_get visited pos = Inr (visited ! nat (fst pos) ! nat (snd pos))"
proof -
  from assms have x: "nat (fst pos) < length visited"
    by (auto simp add: shaped_def isInsideGrid_def)
  with assms have "length (visited ! nat (fst pos)) = gridHeight gs"
    by (auto simp add: shaped_def list_all_length)
  with assms x show ?thesis
    by (auto simp add: visited_get_def isInsideGrid_def)
qed

lemma shaped_set:
  assumes "shaped gs visited" "visited_set visited pos v = Inr visited'"
  shows "shaped gs visited'"
  using assms
  by (auto simp add: shaped_def visited_set_def list_all_length nth_list_update split: if_splits)

lemma nth_update2:
  assumes "i < length vs" "a < length vs"
  shows "length (vs[i := (vs ! i)[j := v]] ! a) = length (vs ! a)"
    and "b < length (vs ! a) \<Longrightarrow>
         vs[i := (vs ! i)[j := v]] ! a ! b = (if a = i \<and> b = j then v else vs ! a ! b)"
  using assms by (cases "a = i"; simp add: nth_list_update)+

lemma visited_get_set:
  assumes "visited_set visited p v = Inr visited'"
  shows "visited_get visited' q = (if q = p then Inr v else visited_get visited q)"
proof -
  from assms have ok: "0 \<le> fst p" "nat (fst p) < length visited" "0 \<le> snd p"
      "nat (snd p) < length (visited ! nat (fst p))"
    and v': "visited' = visited[nat (fst p) := (visited ! nat (fst p))[nat (snd p) := v]]"
    by (auto simp add: visited_set_def split: if_splits)
  have len: "length visited' = length visited"
    by (simp add: v')
  show ?thesis
  proof (cases "0 \<le> fst q \<and> nat (fst q) < length visited \<and>
         0 \<le> snd q \<and> nat (snd q) < length (visited ! nat (fst q))")
    case False
    then have "q \<noteq> p" using ok by auto
    moreover from False have "visited_get visited q = Inl OutOfRange"
      by (simp add: visited_get_def)
    moreover from False have "visited_get visited' q = Inl OutOfRange"
      unfolding visited_get_def len v'
      using nth_update2(1)[OF ok(2), of "nat (fst q)" "nat (snd p)" v]
      by auto
    ultimately show ?thesis by simp
  next
    case True
    then have "visited_get visited q = Inr (visited ! nat (fst q) ! nat (snd q))"
      by (simp add: visited_get_def)
    moreover from True have "visited_get visited' q = Inr (visited' ! nat (fst q) ! nat (snd q))"
      unfolding visited_get_def len v'
      using nth_update2(1)[OF ok(2), of "nat (fst q)" "nat (snd p)" v]
      by simp
    moreover have "visited' ! nat (fst q) ! nat (snd q) =
        (if nat (fst q) = nat (fst p) \<and> nat (snd q) = nat (snd p) then v
         else visited ! nat (fst q) ! nat (snd q))"
      unfolding v' using True ok by (intro nth_update2(2)) auto
    moreover have "(nat (fst q) = nat (fst p) \<and> nat (snd q) = nat (snd p)) = (q = p)"
      using True ok by (auto simp add: prod_eq_iff)
    ultimately show ?thesis by simp
  qed
qed

lemma visited_cells_set:
  assumes "visited_set visited p True = Inr visited'"
  shows "visited_cells visited' = insert p (visited_cells visited)"
  unfolding visited_cells_def visited_get_set[OF assms]
  by auto

lemma floodFill_loop_count:
  "shaped gs visited \<Longrightarrow>
   floodFill_loop gs queue visited area =
     Inr (area + int (card (reach (free_cells gs - visited_cells visited) (set queue))))"
proof (induction gs queue visited area rule: floodFill_loop.induct)
  case (1 gameState visited area)
  have "reach (free_cells gameState - visited_cells visited) {} = {}"
    by (auto elim: reach.induct)
  then show ?case by simp
next
  case (2 gameState pos queue visited area)
  let ?A = "free_cells gameState - visited_cells visited"
  show ?case
  proof (cases "pos \<in> ?A")
    case False
    then have drop: "reach ?A (set (pos # queue)) = reach ?A (set queue)"
      by (simp add: reach_drop)
    show ?thesis
    proof (cases "isInsideGrid gameState pos")
      case False
      with 2 drop show ?thesis by simp
    next
      case inside: True
      from shaped_get[OF \<open>shaped gameState visited\<close> inside]
      obtain seen where seen: "visited_get visited pos = Inr seen" by blast
      show ?thesis
      proof (cases seen)
        case True
        with 2 drop inside seen show ?thesis by simp
      next
        case unseen: False
        with \<open>pos \<notin> ?A\<close> inside seen have "getGridCell gameState pos \<noteq> 0"
          by (auto simp add: free_cells_def visited_cells_def)
        with 2 drop inside seen unseen show ?thesis by simp
      qed
    qed
  next
    case True
    then have inside: "isInsideGrid gameState pos" and free: "getGridCell gameState pos = 0"
      by (auto simp add: free_cells_def)
    from shaped_get[OF \<open>shaped gameState visited\<close> inside] True
    have seen: "visited_get visited pos = Inr False"
      by (auto simp add: visited_cells_def)
    define visited' where
      "visited' = visited[nat (fst pos) := (visited ! nat (fst pos))[nat (snd pos) := True]]"
    from inside \<open>shaped gameState visited\<close>
    have set: "visited_set visited pos True = Inr visited'"
      by (auto simp add: visited_set_def shaped_def isInsideGrid_def list_all_length visited'_def)
    have shaped': "shaped gameState visited'"
      using shaped_set[OF \<open>shaped gameState visited\<close> set] .
    let ?A' = "free_cells gameState - visited_cells visited'"
    let ?Q' = "set (push_neighbours pos 0 queue)"
    have A': "?A' = ?A - {pos}"
      by (auto simp add: visited_cells_set[OF set])
    have IH: "floodFill_loop gameState (push_neighbours pos 0 queue) visited' (area + 1) =
        Inr (area + 1 + int (card (reach ?A' ?Q')))"
      using 2(4)[of False visited'] inside seen free set shaped' by simp
    have split: "reach ?A (set (pos # queue)) = insert pos (reach ?A' ?Q')"
      using reach_visit[OF True, of "set queue"]
      by (simp add: A' set_push_neighbours)
    have notin: "pos \<notin> reach ?A' ?Q'"
      using reach_subset[of ?A' ?Q'] A' by auto
    have fin: "finite (reach ?A' ?Q')"
      by (rule reach_finite) (simp add: free_cells_finite)
    have "card (reach ?A (set (pos # queue))) = Suc (card (reach ?A' ?Q'))"
      using split notin fin by simp
    with IH inside seen free set show ?thesis by simp
  qed
qed

lemma shaped_initial:
  "shaped gs (replicate (gridWidth gs) (replicate (gridHeight gs) False))"
  by (simp add: shaped_def list_all_length)

lemma visited_cells_initial:
  "visited_cells (replicate w (replicate h False)) = {}"
  by (auto simp add: visited_cells_def visited_get_def)

lemma floodFill_count:
  "floodFill gs start_pos = Inr (int (card (reachable gs start_pos)))"
  by (simp add: floodFill_def floodFill_loop_count[OF shaped_initial]
      visited_cells_initial reachable_def)

lemma adjacent_unit:
  "(dx, dy) \<in> {(0, -1), (0, 1), (-1, 0), (1, 0)} \<Longrightarrow> adjacent (x, y) (x + dx, y + dy)"
  by (auto simp add: adjacent_def)

lemma reach_walk:
  assumes "(x, y) \<in> reach A Q"
    and "(dx, dy) \<in> {(0, -1), (0, 1), (-1, 0), (1, 0)}"
    and "\<forall>i. 1 \<le> i \<and> i \<le> int n \<longrightarrow> (x + i * dx, y + i * dy) \<in> A"
  shows "(x + int n * dx, y + int n * dy) \<in> reach A Q"
  using assms(3)
proof (induction n)
  case 0
  with assms(1) show ?case by simp
next
  case (Suc n)
  then have prev: "(x + int n * dx, y + int n * dy) \<in> reach A Q" by simp
  from Suc.prems have here: "(x + int (Suc n) * dx, y + int (Suc n) * dy) \<in> A"
    by (metis int_ops(4) le_add_same_cancel2 of_nat_0_le_iff order_refl add.commute)
  have "adjacent (x + int n * dx, y + int n * dy)
          ((x + int n * dx) + dx, (y + int n * dy) + dy)"
    using assms(2) by (rule adjacent_unit)
  moreover have "(x + int n * dx) + dx = x + int (Suc n) * dx"
      "(y + int n * dy) + dy = y + int (Suc n) * dy"
    by (simp_all add: algebra_simps)
  ultimately have "adjacent (x + int n * dx, y + int n * dy)
          (x + int (Suc n) * dx, y + int (Suc n) * dy)" by simp
  with prev here show ?case by (rule reach.step)
qed

lemma reach_row:
  assumes "(x, y) \<in> reach A Q"
    and "\<forall>i. min x x' \<le> i \<and> i \<le> max x x' \<longrightarrow> (i, y) \<in> A"
  shows "(x', y) \<in> reach A Q"
proof (cases "x \<le> x'")
  case True
  have "(x + int (nat (x' - x)) * 1, y + int (nat (x' - x)) * 0) \<in> reach A Q"
    using assms(1)
  proof (rule reach_walk)
    show "\<forall>i. 1 \<le> i \<and> i \<le> int (nat (x' - x)) \<longrightarrow> (x + i * 1, y + i * 0) \<in> A"
      using assms(2) True by auto
  qed simp
  with True show ?thesis by simp
next
  case False
  have "(x + int (nat (x - x')) * (-1), y + int (nat (x - x')) * 0) \<in> reach A Q"
    using assms(1)
  proof (rule reach_walk)
    show "\<forall>i. 1 \<le> i \<and> i \<le> int (nat (x - x')) \<longrightarrow> (x + i * (-1), y + i * 0) \<in> A"
      using assms(2) False by auto
  qed simp
  with False show ?thesis by simp
qed

lemma reach_column:
  assumes "(x, y) \<in> reach A Q"
    and "\<forall>i. min y y' \<le> i \<and> i \<le> max y y' \<longrightarrow> (x, i) \<in> A"
  shows "(x, y') \<in> reach A Q"
proof (cases "y \<le> y'")
  case True
  have "(x + int (nat (y' - y)) * 0, y + int (nat (y' - y)) * 1) \<in> reach A Q"
    using assms(1)
  proof (rule reach_walk)
    show "\<forall>i. 1 \<le> i \<and> i \<le> int (nat (y' - y)) \<longrightarrow> (x + i * 0, y + i * 1) \<in> A"
      using assms(2) True by auto
  qed simp
  with True show ?thesis by simp
next
  case False
  have "(x + int (nat (y - y')) * 0, y + int (nat (y - y')) * (-1)) \<in> reach A Q"
    using assms(1)
  proof (rule reach_walk)
    show "\<forall>i. 1 \<le> i \<and> i \<le> int (nat (y - y')) \<longrightarrow> (x + i * 0, y + i * (-1)) \<in> A"
      using assms(2) False by auto
  qed simp
  with False show ?thesis by simp
qed

lemma inside_card: "card {pos. isInsideGrid gs pos} = gridWidth gs * gridHeight gs"
proof -
  have "{pos. isInsideGrid gs pos} = {0..<int (gridWidth gs)} \<times> {0..<int (gridHeight gs)}"
    by (auto simp add: isInsideGrid_def)
  then show ?thesis by (simp add: card_cartesian_product)
qed

lemma reachable_all_free:
  assumes all_free: "\<forall>pos. isInsideGrid gs pos \<longrightarrow> getGridCell gs pos = 0"
    and start: "isInsideGrid gs start_pos"
  shows "reachable gs start_pos = {pos. isInsideGrid gs pos}"
proof -
  have A: "free_cells gs = {pos. isInsideGrid gs pos}"
    using all_free by (auto simp add: free_cells_def)
  obtain sx sy where s: "start_pos = (sx, sy)" by (cases start_pos)
  have s0: "(sx, sy) \<in> reach (free_cells gs) {start_pos}"
    by (rule reach.source) (use A start s in auto)
  have "c \<in> reach (free_cells gs) {start_pos}" if c: "isInsideGrid gs c" for c
  proof -
    obtain cx cy where cc: "c = (cx, cy)" by (cases c)
    have "(cx, sy) \<in> reach (free_cells gs) {start_pos}"
      using s0
    proof (rule reach_row)
      show "\<forall>i. min sx cx \<le> i \<and> i \<le> max sx cx \<longrightarrow> (i, sy) \<in> free_cells gs"
        using c start unfolding A s cc by (auto simp add: isInsideGrid_def)
    qed
    then have "(cx, cy) \<in> reach (free_cells gs) {start_pos}"
    proof (rule reach_column)
      show "\<forall>i. min sy cy \<le> i \<and> i \<le> max sy cy \<longrightarrow> (cx, i) \<in> free_cells gs"
        using c start unfolding A s cc by (auto simp add: isInsideGrid_def)
    qed
    with cc show ?thesis by simp
  qed
  moreover have "reach (free_cells gs) {start_pos} \<subseteq> {pos. isInsideGrid gs pos}"
    using reach_subset[of "free_cells gs" "{start_pos}"] A by simp
  ultimately show ?thesis
    unfolding reachable_def by blast
qed

lemma reachable_isolated:
  assumes "start_pos \<in> free_cells gs"
    and "\<forall>q. adjacent start_pos q \<longrightarrow> q \<notin> free_cells gs"
  shows "reachable gs start_pos = {start_pos}"
proof -
  have "c = start_pos" if "c \<in> reach (free_cells gs) {start_pos}" for c
    using that
  proof (induction rule: reach.induct)
    case (source q) then show ?case by simp
  next
    case (step p q) with assms(2) show ?case by blast
  qed
  moreover have "start_pos \<in> reach (free_cells gs) {start_pos}"
    by (rule reach.source) (simp_all add: assms(1))
  ultimately show ?thesis
    unfolding reachable_def by blast
qed

lemma reachable_blocked:
  assumes "start_pos \<notin> free_cells gs"
  shows "reachable gs start_pos = {}"
proof -
  have "False" if "c \<in> reach (free_cells gs) {start_pos}" for c
    using that assms by (induction rule: reach.induct) auto
  then show ?thesis unfolding reachable_def by blast
qed

section \<open>Alpha-beta search against the unpruned search\<close>

lemma max_loop_unfold:
  "max_loop b gs d dv m alpha beta =
     (if dv < 4 then
        if is_valid_move gs (my_player b) (getDirectionFromValue dv) then
          if beta \<le> max alpha (minimax b (child gs (my_player b) dv) (d - 1) False alpha beta)
          then max m (minimax b (child gs (my_player b) dv) (d - 1) False alpha beta)
          else max_loop b gs d (Suc dv)
                 (max m (minimax b (child gs (my_player b) dv) (d - 1) False alpha beta))
                 (max alpha (minimax b (child gs (my_player b) dv) (d - 1) False alpha beta)) beta
        else max_loop b gs d (Suc dv) m alpha beta
      else m)"
  by (subst max_loop.simps) (simp add: Let_def child_def split: prod.splits)

lemma min_loop_unfold:
  "min_loop b gs d dv m alpha beta =
     (if dv < 4 then
        if is_valid_move gs (opponent b) (getDirectionFromValue dv) then
          if min beta (minimax b (child gs (opponent b) dv) (d - 1) True alpha beta) \<le> alpha
          then min m (minimax b (child gs (opponent b) dv) (d - 1) True alpha beta)
          else min_loop b gs d (Suc dv)
                 (min m (minimax b (child gs (opponent b) dv) (d - 1) True alpha beta)) alpha
                 (min beta (minimax b (child gs (opponent b) dv) (d - 1) True alpha beta))
        else min_loop b gs d (Suc dv) m alpha beta
      else m)"
  by (subst min_loop.simps) (simp add: Let_def child_def split: prod.splits)

lemma unpruned_max_loop_unfold:
  "unpruned_max_loop b gs d dv m =
     (if dv < 4 then
        if is_valid_move gs (my_player b) (getDirectionFromValue dv) then
          unpruned_max_loop b gs d (Suc dv)
            (max m (unpruned b (child gs (my_player b) dv) (d - 1) False))
        else unpruned_max_loop b gs d (Suc dv) m
      else m)"
  by (subst unpruned_max_loop.simps) (simp add: Let_def child_def split: prod.splits)

lemma unpruned_min_loop_unfold:
  "unpruned_min_loop b gs d dv m =
     (if dv < 4 then
        if is_valid_move gs (opponent b) (getDirectionFromValue dv) then
          unpruned_min_loop b gs d (Suc dv)
            (min m (unpruned b (child gs (opponent b) dv) (d - 1) True))
        else unpruned_min_loop b gs d (Suc dv) m
      else m)"
  by (subst unpruned_min_loop.simps) (simp add: Let_def child_def split: prod.splits)

lemma unpruned_max_loop_ge: "m \<le> unpruned_max_loop b gs d dv m"
proof (induction "4 - dv" arbitrary: dv m)
  case 0
  then show ?case by (subst unpruned_max_loop_unfold) simp
next
  case (Suc n)
  then have lt: "dv < 4" and n: "n = 4 - Suc dv" by simp_all
  let ?m' = "max m (unpruned b (child gs (my_player b) dv) (d - 1) False)"
  have "?m' \<le> unpruned_max_loop b gs d (Suc dv) ?m'"
    and "m \<le> unpruned_max_loop b gs d (Suc dv) m"
    using Suc.hyps(1)[OF n] by blast+
  then show ?case
    using lt by (subst unpruned_max_loop_unfold) simp
qed

lemma unpruned_min_loop_le: "unpruned_min_loop b gs d dv m \<le> m"
proof (induction "4 - dv" arbitrary: dv m)
  case 0
  then show ?case by (subst unpruned_min_loop_unfold) simp
next
  case (Suc n)
  then have lt: "dv < 4" and n: "n = 4 - Suc dv" by simp_all
  let ?m' = "min m (unpruned b (child gs (opponent b) dv) (d - 1) True)"
  have "unpruned_min_loop b gs d (Suc dv) ?m' \<le> ?m'"
    and "unpruned_min_loop b gs d (Suc dv) m \<le> m"
    using Suc.hyps(1)[OF n] by blast+
  then show ?case
    using lt by (subst unpruned_min_loop_unfold) simp
qed

lemma max_loop_ge: "m \<le> max_loop b gs d dv m alpha beta"
proof (induction "4 - dv" arbitrary: dv m alpha)
  case 0
  then show ?case by (subst max_loop_unfold) simp
next
  case (Suc n)
  then have lt: "dv < 4" and n: "n = 4 - Suc dv" by simp_all
  let ?e = "minimax b (child gs (my_player b) dv) (d - 1) False alpha beta"
  have "max m ?e \<le> max_loop b gs d (Suc dv) (max m ?e) (max alpha ?e) beta"
    and "m \<le> max_loop b gs d (Suc dv) m alpha beta"
    using Suc.hyps(1)[OF n] by blast+
  then show ?case
    using lt by (subst max_loop_unfold) simp
qed

lemma min_loop_le: "min_loop b gs d dv m alpha beta \<le> m"
proof (induction "4 - dv" arbitrary: dv m beta)
  case 0
  then show ?case by (subst min_loop_unfold) simp
next
  case (Suc n)
  then have lt: "dv < 4" and n: "n = 4 - Suc dv" by simp_all
  let ?e = "minimax b (child gs (opponent b) dv) (d - 1) True alpha beta"
  have "min_loop b gs d (Suc dv) (min m ?e) alpha (min beta ?e) \<le> min m ?e"
    and "min_loop b gs d (Suc dv) m alpha beta \<le> m"
    using Suc.hyps(1)[OF n] by blast+
  then show ?case
    using lt by (subst min_loop_unfold) simp
qed

lemma failsoft_refl: "failsoft alpha beta v v"
  by (simp add: failsoft_def)

lemma failsoft_max_acc:
  assumes "failsoft alpha beta vc e" "e < beta" "mf \<le> m" "m \<le> alpha"
  shows "max mf vc \<le> max m e" and "max m e \<le> max alpha e"
  using assms unfolding failsoft_def by auto

lemma failsoft_max_cut:
  assumes "alpha < beta" "m \<le> alpha" "failsoft alpha beta vc e" "beta \<le> max alpha e"
    and "max mf vc \<le> v"
  shows "failsoft alpha beta v (max m e)"
  using assms unfolding failsoft_def by auto

lemma failsoft_max_rest:
  assumes "alpha < beta" "mf \<le> m" "m \<le> alpha" "failsoft alpha beta vc e"
    and "failsoft (max alpha e) beta v r" "max m e \<le> r" "max mf vc \<le> v"
  shows "failsoft alpha beta v r"
  using assms unfolding failsoft_def by (cases "e \<le> alpha") auto

lemma failsoft_min_acc:
  assumes "failsoft alpha beta vc e" "alpha < e" "m \<le> mf" "beta \<le> m"
  shows "min m e \<le> min mf vc" and "min beta e \<le> min m e"
  using assms unfolding failsoft_def by auto

lemma failsoft_min_cut:
  assumes "alpha < beta" "beta \<le> m" "failsoft alpha beta vc e" "min beta e \<le> alpha"
    and "v \<le> min mf vc"
  shows "failsoft alpha beta v (min m e)"
  using assms unfolding failsoft_def by auto

lemma failsoft_min_rest:
  assumes "alpha < beta" "m \<le> mf" "beta \<le> m" "failsoft alpha beta vc e"
    and "failsoft alpha (min beta e) v r" "r \<le> min m e" "v \<le> min mf vc"
  shows "failsoft alpha beta v r"
  using assms unfolding failsoft_def by (cases "beta \<le> e") auto

lemma child_pair:
  "(g, p) = movePlayer gs player (getDirectionFromValue dv) \<Longrightarrow> g = child gs player dv"
  by (metis child_def fst_conv)

lemma failsoft_search:
  "INT_MIN \<le> alpha \<Longrightarrow> alpha < beta \<Longrightarrow> beta \<le> INT_MAX \<Longrightarrow>
     failsoft alpha beta (unpruned b gs d mx) (minimax b gs d mx alpha beta)"
  "INT_MIN \<le> alpha \<Longrightarrow> alpha < beta \<Longrightarrow> beta \<le> INT_MAX \<Longrightarrow> mf \<le> m \<Longrightarrow> m \<le> alpha \<Longrightarrow>
     failsoft alpha beta (unpruned_max_loop b gs d dv mf) (max_loop b gs d dv m alpha beta)"
  "INT_MIN \<le> alpha \<Longrightarrow> alpha < beta \<Longrightarrow> beta \<le> INT_MAX \<Longrightarrow> m \<le> mf \<Longrightarrow> beta \<le> m \<Longrightarrow>
     failsoft alpha beta (unpruned_min_loop b gs d dv mf) (min_loop b gs d dv m alpha beta)"
proof (induction b gs d mx alpha beta and b gs d dv m alpha beta and b gs d dv m alpha beta
    arbitrary: and mf and mf rule: minimax_max_loop_min_loop.induct)
  case (1 b gameState depth maximizingPlayer alpha beta)
  show ?case
  proof (cases "depth = 0 \<or> game_over b gameState")
    case True
    then show ?thesis
      by (subst minimax.simps, subst unpruned.simps) (simp add: failsoft_refl)
  next
    case False
    show ?thesis
    proof (cases maximizingPlayer)
      case True
      have "failsoft alpha beta (unpruned_max_loop b gameState depth 0 INT_MIN)
              (max_loop b gameState depth 0 INT_MIN alpha beta)"
        using "1.IH"(1)[OF False True] "1.prems" by simp
      then show ?thesis
        using False True by (subst minimax.simps, subst unpruned.simps) simp
    next
      case mn: False
      have "failsoft alpha beta (unpruned_min_loop b gameState depth 0 INT_MAX)
              (min_loop b gameState depth 0 INT_MAX alpha beta)"
        using "1.IH"(2)[OF False mn] "1.prems" by simp
      then show ?thesis
        using False mn by (subst minimax.simps, subst unpruned.simps) simp
    qed
  qed
next
  case (2 b gameState depth dir_value maxEval alpha beta)
  note prems = "2.prems"
  show ?case
  proof (cases "dir_value < 4")
    case False
    then show ?thesis
      using prems
      by (subst max_loop_unfold, subst unpruned_max_loop_unfold) (simp add: failsoft_def)
  next
    case lt: True
    let ?dir = "getDirectionFromValue dir_value"
    show ?thesis
    proof (cases "is_valid_move gameState (my_player b) ?dir")
      case False
      have "failsoft alpha beta (unpruned_max_loop b gameState depth (dir_value + 1) mf)
              (max_loop b gameState depth (dir_value + 1) maxEval alpha beta)"
        using "2.IH"(3)[OF lt refl False] prems by simp
      then show ?thesis
        using lt False by (subst max_loop_unfold, subst unpruned_max_loop_unfold) simp
    next
      case valid: True
      let ?g = "child gameState (my_player b) dir_value"
      let ?e = "minimax b ?g (depth - 1) False alpha beta"
      let ?vc = "unpruned b ?g (depth - 1) False"
      let ?v = "unpruned_max_loop b gameState depth (Suc dir_value) (max mf ?vc)"
      have gp: "(?g, snd (movePlayer gameState (my_player b) ?dir)) =
                movePlayer gameState (my_player b) ?dir"
        by (simp add: child_def)
      have ch: "failsoft alpha beta ?vc ?e"
        using "2.IH"(1)[OF lt refl valid refl gp] prems by simp
      have v_ge: "max mf ?vc \<le> ?v"
        by (rule unpruned_max_loop_ge)
      have lhs: "unpruned_max_loop b gameState depth dir_value mf = ?v"
        using lt valid by (subst unpruned_max_loop_unfold) simp
      show ?thesis
      proof (cases "beta \<le> max alpha ?e")
        case True
        have "max_loop b gameState depth dir_value maxEval alpha beta = max maxEval ?e"
          using lt valid True by (subst max_loop_unfold) simp
        moreover have "failsoft alpha beta ?v (max maxEval ?e)"
          using prems(2,5) ch True v_ge by (rule failsoft_max_cut)
        ultimately show ?thesis using lhs by simp
      next
        case False
        let ?r = "max_loop b gameState depth (Suc dir_value) (max maxEval ?e) (max alpha ?e) beta"
        have rhs: "max_loop b gameState depth dir_value maxEval alpha beta = ?r"
          using lt valid False by (subst max_loop_unfold) simp
        from False have e_lt: "?e < beta" by simp
        have acc: "max mf ?vc \<le> max maxEval ?e" "max maxEval ?e \<le> max alpha ?e"
          using failsoft_max_acc[OF ch e_lt prems(4,5)] by blast+
        have "failsoft (max alpha ?e) beta ?v ?r"
          using "2.IH"(2)[OF lt refl valid refl gp refl refl refl False, of "max mf ?vc"]
            prems acc False by simp
        moreover have "max maxEval ?e \<le> ?r"
          by (rule max_loop_ge)
        ultimately have "failsoft alpha beta ?v ?r"
          using prems(2,4,5) ch v_ge
          by (intro failsoft_max_rest[of alpha beta mf maxEval ?vc ?e ?v ?r])
        then show ?thesis using lhs rhs by simp
      qed
    qed
  qed
next
  case (3 b gameState depth dir_value minEval alpha beta)
  note prems = "3.prems"
  show ?case
  proof (cases "dir_value < 4")
    case False
    then show ?thesis
      using prems
      by (subst min_loop_unfold, subst unpruned_min_loop_unfold) (simp add: failsoft_def)
  next
    case lt: True
    let ?dir = "getDirectionFromValue dir_value"
    show ?thesis
    proof (cases "is_valid_move gameState (opponent b) ?dir")
      case False
      have "failsoft alpha beta (unpruned_min_loop b gameState depth (dir_value + 1) mf)
              (min_loop b gameState depth (dir_value + 1) minEval alpha beta)"
        using "3.IH"(3)[OF lt refl False] prems by simp
      then show ?thesis
        using lt False by (subst min_loop_unfold, subst unpruned_min_loop_unfold) simp
    next
      case valid: True
      let ?g = "child gameState (opponent b) dir_value"
      let ?e = "minimax b ?g (depth - 1) True alpha beta"
      let ?vc = "unpruned b ?g (depth - 1) True"
      let ?v = "unpruned_min_loop b gameState depth (Suc dir_value) (min mf ?vc)"
      have gp: "(?g, snd (movePlayer gameState (opponent b) ?dir)) =
                movePlayer gameState (opponent b) ?dir"
        by (simp add: child_def)
      have ch: "failsoft alpha beta ?vc ?e"
        using "3.IH"(1)[OF lt refl valid refl gp] prems by simp
      have v_le: "?v \<le> min mf ?vc"
        by (rule unpruned_min_loop_le)
      have lhs: "unpruned_min_loop b gameState depth dir_value mf = ?v"
        using lt valid by (subst unpruned_min_loop_unfold) simp
      show ?thesis
      proof (cases "min beta ?e \<le> alpha")
        case True
        have "min_loop b gameState depth dir_value minEval alpha beta = min minEval ?e"
          using lt valid True by (subst min_loop_unfold) simp
        moreover have "failsoft alpha beta ?v (min minEval ?e)"
          using prems(2,5) ch True v_le by (rule failsoft_min_cut)
        ultimately show ?thesis using lhs by simp
      next
        case False
        let ?r = "min_loop b gameState depth (Suc dir_value) (min minEval ?e) alpha (min beta ?e)"
        have rhs: "min_loop b gameState depth dir_value minEval alpha beta = ?r"
          using lt valid False by (subst min_loop_unfold) simp
        from False have e_gt: "alpha < ?e" by simp
        have acc: "min minEval ?e \<le> min mf ?vc" "min beta ?e \<le> min minEval ?e"
          using failsoft_min_acc[OF ch e_gt prems(4,5)] by blast+
        have "failsoft alpha (min beta ?e) ?v ?r"
          using "3.IH"(2)[OF lt refl valid refl gp refl refl refl False, of "min mf ?vc"]
            prems acc False by simp
        moreover have "?r \<le> min minEval ?e"
          by (rule min_loop_le)
        ultimately have "failsoft alpha beta ?v ?r"
          using prems(2,4,5) ch v_le
          by (intro failsoft_min_rest[of alpha beta minEval mf ?vc ?e ?v ?r])
        then show ?thesis using lhs rhs by simp
      qed
    qed
  qed
qed

section \<open>Areas, evaluation and the range of the search values\<close>

lemma reachable_subset: "reachable gs p \<subseteq> free_cells gs"
  unfolding reachable_def by (rule reach_subset)

lemma reachable_card_le: "card (reachable gs p) \<le> gridWidth gs * gridHeight gs"
proof -
  have "reachable gs p \<subseteq> {pos. isInsideGrid gs pos}"
    using reachable_subset[of gs p] by (auto simp add: free_cells_def)
  then have "card (reachable gs p) \<le> card {pos. isInsideGrid gs pos}"
    by (intro card_mono isInside_finite)
  then show ?thesis by (simp add: inside_card)
qed

lemma evaluate_count:
  "evaluate b gs = int (card (reachable gs (position (my_player b)))) -
                   int (card (reachable gs (position (opponent b))))"
  by (simp add: evaluate_def floodFill_count area_of_def Let_def)

lemma evaluate_range:
  assumes "int (gridWidth gs) * int (gridHeight gs) \<le> INT_MAX"
  shows "INT_MIN \<le> evaluate b gs" and "evaluate b gs \<le> INT_MAX"
proof -
  have a: "int (card (reachable gs (position (my_player b)))) \<le> INT_MAX"
    and c: "int (card (reachable gs (position (opponent b)))) \<le> INT_MAX"
    using reachable_card_le[of gs "position (my_player b)"]
      reachable_card_le[of gs "position (opponent b)"] assms
    by (metis (no_types, opaque_lifting) of_nat_le_iff of_nat_mult order_trans)+
  show "INT_MIN \<le> evaluate b gs"
    using c unfolding evaluate_count by (simp add: INT_MIN_def INT_MAX_def)
  show "evaluate b gs \<le> INT_MAX"
    using a unfolding evaluate_count by simp
qed

lemma child_dims [simp]:
  "gridWidth (child gs p dv) = gridWidth gs" "gridHeight (child gs p dv) = gridHeight gs"
  by (simp_all add: child_def movePlayer_def setGridCell_def Let_def)

lemma unpruned_range:
  "int (gridWidth gs) * int (gridHeight gs) \<le> INT_MAX \<Longrightarrow>
     INT_MIN \<le> unpruned b gs d mx \<and> unpruned b gs d mx \<le> INT_MAX"
  "int (gridWidth gs) * int (gridHeight gs) \<le> INT_MAX \<Longrightarrow> INT_MIN \<le> m \<Longrightarrow> m \<le> INT_MAX \<Longrightarrow>
     INT_MIN \<le> unpruned_max_loop b gs d dv m \<and> unpruned_max_loop b gs d dv m \<le> INT_MAX"
  "int (gridWidth gs) * int (gridHeight gs) \<le> INT_MAX \<Longrightarrow> INT_MIN \<le> m \<Longrightarrow> m \<le> INT_MAX \<Longrightarrow>
     INT_MIN \<le> unpruned_min_loop b gs d dv m \<and> unpruned_min_loop b gs d dv m \<le> INT_MAX"
proof (induction b gs d mx and b gs d dv m and b gs d dv m
    rule: unpruned_unpruned_max_loop_unpruned_min_loop.induct)
  case (1 b gameState depth maximizingPlayer)
  have bounds: "INT_MIN \<le> INT_MIN" "INT_MIN \<le> INT_MAX" "INT_MAX \<le> INT_MAX"
    by (simp_all add: INT_MIN_def INT_MAX_def)
  show ?case
  proof (cases "depth = 0 \<or> game_over b gameState")
    case True
    then show ?thesis
      using evaluate_range[OF "1.prems"] by (subst (1 2) unpruned.simps) simp
  next
    case False
    show ?thesis
    proof (cases maximizingPlayer)
      case True
      then show ?thesis
        using False "1.IH"(1)[OF False True "1.prems"] bounds
        by (subst (1 2) unpruned.simps) simp
    next
      case mn: False
      then show ?thesis
        using False "1.IH"(2)[OF False mn "1.prems"] bounds
        by (subst (1 2) unpruned.simps) simp
    qed
  qed
next
  case (2 b gameState depth dir_value maxEval)
  show ?case
  proof (cases "dir_value < 4")
    case False
    then show ?thesis
      using "2.prems" by (subst (1 2) unpruned_max_loop_unfold) simp
  next
    case lt: True
    let ?dir = "getDirectionFromValue dir_value"
    show ?thesis
    proof (cases "is_valid_move gameState (my_player b) ?dir")
      case False
      then show ?thesis
        using lt "2.IH"(3)[OF lt refl False] "2.prems"
        by (subst (1 2) unpruned_max_loop_unfold) simp
    next
      case valid: True
      let ?g = "child gameState (my_player b) dir_value"
      have gp: "(?g, snd (movePlayer gameState (my_player b) ?dir)) =
                movePlayer gameState (my_player b) ?dir"
        by (simp add: child_def)
      have ch: "INT_MIN \<le> unpruned b ?g (depth - 1) False \<and> unpruned b ?g (depth - 1) False \<le> INT_MAX"
        using "2.IH"(1)[OF lt refl valid refl gp] "2.prems"(1) by simp
      have "INT_MIN \<le> unpruned_max_loop b gameState depth (dir_value + 1)
                (max maxEval (unpruned b ?g (depth - 1) False)) \<and>
            unpruned_max_loop b gameState depth (dir_value + 1)
                (max maxEval (unpruned b ?g (depth - 1) False)) \<le> INT_MAX"
        using "2.IH"(2)[OF lt refl valid refl gp refl "2.prems"(1)] ch "2.prems"(2,3)
        by simp
      then show ?thesis
        using lt valid by (subst (1 2) unpruned_max_loop_unfold) simp
    qed
  qed
next
  case (3 b gameState depth dir_value minEval)
  show ?case
  proof (cases "dir_value < 4")
    case False
    then show ?thesis
      using "3.prems" by (subst (1 2) unpruned_min_loop_unfold) simp
  next
    case lt: True
    let ?dir = "getDirectionFromValue dir_value"
    show ?thesis
    proof (cases "is_valid_move gameState (opponent b) ?dir")
      case False
      then show ?thesis
        using lt "3.IH"(3)[OF lt refl False] "3.prems"
        by (subst (1 2) unpruned_min_loop_unfold) simp
    next
      case valid: True
      let ?g = "child gameState (opponent b) dir_value"
      have gp: "(?g, snd (movePlayer gameState (opponent b) ?dir)) =
                movePlayer gameState (opponent b) ?dir"
        by (simp add: child_def)
      have ch: "INT_MIN \<le> unpruned b ?g (depth - 1) True \<and> unpruned b ?g (depth - 1) True \<le> INT_MAX"
        using "3.IH"(1)[OF lt refl valid refl gp] "3.prems"(1) by simp
      have "INT_MIN \<le> unpruned_min_loop b gameState depth (dir_value + 1)
                (min minEval (unpruned b ?g (depth - 1) True)) \<and>
            unpruned_min_loop b gameState depth (dir_value + 1)
                (min minEval (unpruned b ?g (depth - 1) True)) \<le> INT_MAX"
        using "3.IH"(2)[OF lt refl valid refl gp refl "3.prems"(1)] ch "3.prems"(2,3)
        by simp
      then show ?thesis
        using lt valid by (subst (1 2) unpruned_min_loop_unfold) simp
    qed
  qed
qed

lemma failsoft_widest:
  assumes "failsoft INT_MIN INT_MAX v r" "INT_MIN \<le> v" "v \<le> INT_MAX"
  shows "r = v"
  using assms unfolding failsoft_def INT_MIN_def INT_MAX_def by auto

section \<open>The decision loop\<close>

lemma decideMove_loop_unfold:
  "decideMove_loop b dv bestScore bestMove =
     (if dv < 4 then
        if is_valid_move (state b) (my_player b) (getDirectionFromValue dv) then
          if score_of b dv > bestScore
          then decideMove_loop b (Suc dv) (score_of b dv) (getDirectionFromValue dv)
          else decideMove_loop b (Suc dv) bestScore bestMove
        else decideMove_loop b (Suc dv) bestScore bestMove
      else (bestMove, b))"
  by (subst decideMove_loop.simps) (simp add: Let_def child_def score_of_def split: prod.splits)

lemma decideMove_loop_bot: "snd (decideMove_loop b dv bestScore bestMove) = b"
proof (induction "4 - dv" arbitrary: dv bestScore bestMove)
  case 0
  then show ?case by (subst decideMove_loop_unfold) simp
next
  case (Suc n)
  then have lt: "dv < 4" and n: "n = 4 - Suc dv" by simp_all
  show ?case
    using lt Suc.hyps(1)[OF n] by (subst decideMove_loop_unfold) simp
qed

lemma decideMove_loop_no_moves:
  assumes "\<forall>d. \<not> is_valid_move (state b) (my_player b) d"
  shows "decideMove_loop b dv bestScore bestMove = (bestMove, b)"
proof (induction "4 - dv" arbitrary: dv)
  case 0
  then show ?case by (subst decideMove_loop_unfold) simp
next
  case (Suc n)
  then have lt: "dv < 4" and n: "n = 4 - Suc dv" by simp_all
  show ?case
    using lt assms Suc.hyps(1)[OF n] by (subst decideMove_loop_unfold) simp
qed

text \<open>
  What the loop of \<^verbatim>\<open>decideMove\<close> returns, for any start of the loop: either
  the move it started with, when no remaining legal direction scores above
  the score it started with, or the first remaining legal direction whose
  score is the largest.
\<close>

lemma decideMove_loop_choice:
  "(fst (decideMove_loop b dv s m) = m \<and> (\<forall>j. dv \<le> j \<and> legal b j \<longrightarrow> score_of b j \<le> s)) \<or>
   (\<exists>k. dv \<le> k \<and> legal b k \<and> fst (decideMove_loop b dv s m) = getDirectionFromValue k \<and>
        s < score_of b k \<and>
        (\<forall>j. dv \<le> j \<and> legal b j \<longrightarrow> score_of b j \<le> score_of b k) \<and>
        (\<forall>j. dv \<le> j \<and> j < k \<and> legal b j \<longrightarrow> score_of b j < score_of b k))"
  (is "?none dv s m \<or> ?some dv s m")
proof (induction "4 - dv" arbitrary: dv s m)
  case 0
  then have "\<not> dv < 4" by simp
  then have "fst (decideMove_loop b dv s m) = m"
    by (subst decideMove_loop_unfold) simp
  moreover from \<open>\<not> dv < 4\<close> have "\<forall>j. dv \<le> j \<longrightarrow> \<not> legal b j"
    by (simp add: legal_def)
  ultimately show ?case by blast
next
  case (Suc n)
  then have lt: "dv < 4" and n: "n = 4 - Suc dv" by simp_all
  have split: "\<And>j. dv \<le> j \<longleftrightarrow> j = dv \<or> Suc dv \<le> j" by auto
  show ?case
  proof (cases "legal b dv \<and> s < score_of b dv")
    case True
    then have valid: "is_valid_move (state b) (my_player b) (getDirectionFromValue dv)"
      by (simp add: legal_def)
    have eq: "decideMove_loop b dv s m =
        decideMove_loop b (Suc dv) (score_of b dv) (getDirectionFromValue dv)"
      using lt valid True by (subst decideMove_loop_unfold) simp
    from Suc.hyps(1)[OF n, of "score_of b dv" "getDirectionFromValue dv"]
    show ?thesis
    proof
      assume a: "?none (Suc dv) (score_of b dv) (getDirectionFromValue dv)"
      have "?some dv s m"
      proof (intro exI[of _ dv] conjI allI impI)
        show "fst (decideMove_loop b dv s m) = getDirectionFromValue dv"
          using a eq by simp
        show "score_of b j \<le> score_of b dv" if "dv \<le> j \<and> legal b j" for j
          using a that split[of j] by auto
      qed (use True in auto)
      then show ?thesis ..
    next
      assume "?some (Suc dv) (score_of b dv) (getDirectionFromValue dv)"
      then obtain k where k: "Suc dv \<le> k" "legal b k"
          "fst (decideMove_loop b (Suc dv) (score_of b dv) (getDirectionFromValue dv)) =
             getDirectionFromValue k"
          "score_of b dv < score_of b k"
          "\<forall>j. Suc dv \<le> j \<and> legal b j \<longrightarrow> score_of b j \<le> score_of b k"
          "\<forall>j. Suc dv \<le> j \<and> j < k \<and> legal b j \<longrightarrow> score_of b j < score_of b k"
        by blast
      have "?some dv s m"
      proof (intro exI[of _ k] conjI allI impI)
        show "dv \<le> k" using k(1) by simp
        show "legal b k" by (rule k(2))
        show "fst (decideMove_loop b dv s m) = getDirectionFromValue k"
          using k(3) eq by simp
        show "s < score_of b k" using True k(4) by simp
        show "score_of b j \<le> score_of b k" if "dv \<le> j \<and> legal b j" for j
          using that split[of j] k(4,5) by auto
        show "score_of b j < score_of b k" if "dv \<le> j \<and> j < k \<and> legal b j" for j
          using that split[of j] k(4,6) by auto
      qed
      then show ?thesis ..
    qed
  next
    case False
    have eq: "decideMove_loop b dv s m = decideMove_loop b (Suc dv) s m"
      using lt False by (subst decideMove_loop_unfold) (auto simp add: legal_def)
    from False have here: "legal b dv \<longrightarrow> score_of b dv \<le> s" by auto
    from Suc.hyps(1)[OF n, of s m]
    show ?thesis
    proof
      assume a: "?none (Suc dv) s m"
      have "?none dv s m"
      proof (intro conjI allI impI)
        show "fst (decideMove_loop b dv s m) = m" using a eq by simp
        show "score_of b j \<le> s" if "dv \<le> j \<and> legal b j" for j
          using that split[of j] a here by auto
      qed
      then show ?thesis ..
    next
      assume "?some (Suc dv) s m"
      then obtain k where k: "Suc dv \<le> k" "legal b k"
          "fst (decideMove_loop b (Suc dv) s m) = getDirectionFromValue k"
          "s < score_of b k"
          "\<forall>j. Suc dv \<le> j \<and> legal b j \<longrightarrow> score_of b j \<le> score_of b k"
          "\<forall>j. Suc dv \<le> j \<and> j < k \<and> legal b j \<longrightarrow> score_of b j < score_of b k"
        by blast
      have "?some dv s m"
      proof (intro exI[of _ k] conjI allI impI)
        show "dv \<le> k" using k(1) by simp
        show "legal b k" by (rule k(2))
        show "fst (decideMove_loop b dv s m) = getDirectionFromValue k"
          using k(3) eq by simp
        show "s < score_of b k" by (rule k(4))
        show "score_of b j \<le> score_of b k" if "dv \<le> j \<and> legal b j" for j
          using that split[of j] k(4,5) here by auto
        show "score_of b j < score_of b k" if "dv \<le> j \<and> j < k \<and> legal b j" for j
          using that split[of j] k(4,6) here by auto
      qed
      then show ?thesis ..
    qed
  qed
qed

lemma decideMove_first_maximum:
  assumes "legal b i" and "INT_MIN < score_of b i"
  shows "\<exists>k. legal b k \<and> fst (decideMove b) = getDirectionFromValue k \<and>
          (\<forall>j. legal b j \<longrightarrow> score_of b j \<le> score_of b k) \<and>
          (\<forall>j. j < k \<and> legal b j \<longrightarrow> score_of b j < score_of b k)"
proof -
  from decideMove_loop_choice[of b 0 INT_MIN Up] assms
  show ?thesis
    unfolding decideMove_def by (auto simp add: not_le)
qed

lemma decideMove_all_sentinel:
  assumes "\<forall>j. legal b j \<longrightarrow> score_of b j \<le> INT_MIN"
  shows "fst (decideMove b) = Up"
proof -
  from decideMove_loop_choice[of b 0 INT_MIN Up] assms
  show ?thesis
    unfolding decideMove_def by (auto simp add: not_le)
qed

section \<open>Claims\<close>

text \<open>
  C1.  The claim: at every depth of at least 1 the maximizing layer applies a
  legal move to a private copy (the destination becomes blocked, the moving
  player's position in the copy becomes the destination) and the recursive
  call at depth - 1, with every evaluation it reaches, sees the moved
  player; likewise for the minimizing layer.  The source blocks the cell in
  the copied state and moves the copy \<^verbatim>\<open>newMyPlayer\<close>, but never hands that
  copy on: the recursive call keeps reading \<^verbatim>\<open>my_player\<close>.  The theorem
  runs the search on \<open>board3\<close>: Down is legal for the bot and takes the copy
  to (0,1), from where Down is legal again; yet in the state after the move
  no direction is legal from the position the search still uses, and the
  maximizing layer at depth 3 returns the untouched accumulator
  \<open>INT_MIN\<close>.
\<close>

theorem minimax_keeps_stale_position:
  "is_valid_move board3 (my_player bot3) Down \<and>
   position (snd (movePlayer board3 (my_player bot3) Down)) = (0, 1) \<and>
   getGridCell (fst (movePlayer board3 (my_player bot3) Down)) (0, 1) = 1 \<and>
   is_valid_move (fst (movePlayer board3 (my_player bot3) Down))
     (snd (movePlayer board3 (my_player bot3) Down)) Down \<and>
   \<not> is_valid_move (fst (movePlayer board3 (my_player bot3) Down)) (my_player bot3) Up \<and>
   \<not> is_valid_move (fst (movePlayer board3 (my_player bot3) Down)) (my_player bot3) Down \<and>
   \<not> is_valid_move (fst (movePlayer board3 (my_player bot3) Down)) (my_player bot3) Left \<and>
   \<not> is_valid_move (fst (movePlayer board3 (my_player bot3) Down)) (my_player bot3) Right \<and>
   minimax bot3 board3 3 True INT_MIN INT_MAX = INT_MIN"
  by code_simp

text \<open>
  C2.  For every state, depth and side to move, the alpha-beta search started
  with the widest window (\<open>INT_MIN\<close>, \<open>INT_MAX\<close>) returns the value of the
  unpruned minimax traversal of the same tree.  The areas are counted in
  unbounded integers here, so the grid is assumed to have at most \<open>INT_MAX\<close>
  cells, as it must for the \<^verbatim>\<open>int\<close> counters of the source.
\<close>

theorem minimax_equals_unpruned:
  assumes "int (gridWidth gameState) * int (gridHeight gameState) \<le> INT_MAX"
  shows "minimax b gameState depth maximizingPlayer INT_MIN INT_MAX =
         unpruned b gameState depth maximizingPlayer"
proof -
  have "failsoft INT_MIN INT_MAX (unpruned b gameState depth maximizingPlayer)
          (minimax b gameState depth maximizingPlayer INT_MIN INT_MAX)"
    by (rule failsoft_search(1)) (simp_all add: INT_MIN_def INT_MAX_def)
  then show ?thesis
    using unpruned_range(1)[OF assms, of b depth maximizingPlayer]
    by (intro failsoft_widest) simp_all
qed

theorem minimax_equals_unpruned_witness:
  "int (gridWidth board3) * int (gridHeight board3) \<le> INT_MAX \<and>
   minimax bot3 board3 3 True INT_MIN INT_MAX = unpruned bot3 board3 3 True \<and>
   minimax bot3 board3 2 False INT_MIN INT_MAX = unpruned bot3 board3 2 False"
proof -
  have h: "int (gridWidth board3) * int (gridHeight board3) \<le> INT_MAX"
    by (simp add: board3_def INT_MAX_def)
  show ?thesis
    using h minimax_equals_unpruned[OF h, of bot3 3 True]
      minimax_equals_unpruned[OF h, of bot3 2 False] by simp
qed

text \<open>
  C3.  The claim: on every game state reached during a decision,
  \<^verbatim>\<open>evaluate\<close> is the area reachable from the position of the bot's player
  in that state minus the area reachable from the position of the opponent
  in that state.  \<^verbatim>\<open>evaluate\<close> starts its two flood fills at the fields
  \<^verbatim>\<open>my_player\<close> and \<^verbatim>\<open>opponent\<close>, which the search never moves.  On the
  scenario of the specification, after the bot's move Down the bot stands
  at (0,1) and the opponent at (2,2): the areas from there are 0 and 8, a
  difference of -8, but \<^verbatim>\<open>evaluate\<close> fills from (0,0) and (2,2) and returns
  8 - 8 = 0, which is also what \<^verbatim>\<open>minimax\<close> returns at depth 0.  Three
  plies deep, on the first leaf that \<^verbatim>\<open>decideMove\<close> evaluates, the moved
  copies stand at (1,0) and (2,1) with areas 0 and 0, and \<^verbatim>\<open>evaluate\<close>
  returns 1 - 4 = -3.
\<close>

theorem evaluate_reads_stale_positions:
  "scenario_bot = receiveGameState idle_bot scenario_board \<and>
   is_valid_move scenario_board (my_player scenario_bot) Down \<and>
   fst scenario_ply1 \<in> search_states scenario_bot \<and>
   position (snd scenario_ply1) = (0, 1) \<and>
   position (my_player scenario_bot) = (0, 0) \<and>
   position (opponent scenario_bot) = (2, 2) \<and>
   floodFill (fst scenario_ply1) (0, 1) = Inr 0 \<and>
   floodFill (fst scenario_ply1) (2, 2) = Inr 8 \<and>
   floodFill (fst scenario_ply1) (0, 0) = Inr 8 \<and>
   evaluate scenario_bot (fst scenario_ply1) = 0 \<and>
   minimax scenario_bot (fst scenario_ply1) 0 False INT_MIN INT_MAX = 0 \<and>
   fst scenario_ply3 \<in> search_states scenario_bot \<and>
   position (snd scenario_ply2) = (2, 1) \<and>
   position (snd scenario_ply3) = (1, 0) \<and>
   floodFill (fst scenario_ply3) (1, 0) = Inr 0 \<and>
   floodFill (fst scenario_ply3) (2, 1) = Inr 0 \<and>
   floodFill (fst scenario_ply3) (0, 0) = Inr 1 \<and>
   floodFill (fst scenario_ply3) (2, 2) = Inr 4 \<and>
   evaluate scenario_bot (fst scenario_ply3) = - 3"
proof -
  have received: "scenario_bot = receiveGameState idle_bot scenario_board"
    by (simp add: receiveGameState_def scenario_bot_def idle_bot_def scenario_board_def)
  have st: "state scenario_bot = scenario_board"
    by (simp add: scenario_bot_def)
  have v1: "is_valid_move (state scenario_bot) (my_player scenario_bot) Down"
    by code_simp
  have v2: "is_valid_move (fst scenario_ply1) (opponent scenario_bot) Up"
    by code_simp
  have v3: "is_valid_move (fst scenario_ply2) (my_player scenario_bot) Right"
    by code_simp
  have s1: "fst scenario_ply1 \<in> search_states scenario_bot"
    using search_states.self_move[OF search_states.root v1]
    by (simp add: scenario_ply1_def st)
  have s2: "fst scenario_ply2 \<in> search_states scenario_bot"
    using search_states.opponent_move[OF s1 v2] by (simp add: scenario_ply2_def)
  have s3: "fst scenario_ply3 \<in> search_states scenario_bot"
    using search_states.self_move[OF s2 v3] by (simp add: scenario_ply3_def)
  have positions: "position (snd scenario_ply1) = (0, 1)"
      "position (my_player scenario_bot) = (0, 0)"
      "position (opponent scenario_bot) = (2, 2)"
      "position (snd scenario_ply2) = (2, 1)"
      "position (snd scenario_ply3) = (1, 0)"
    by code_simp+
  have ply1: "floodFill (fst scenario_ply1) (0, 1) = Inr 0"
      "floodFill (fst scenario_ply1) (2, 2) = Inr 8"
      "floodFill (fst scenario_ply1) (0, 0) = Inr 8"
      "evaluate scenario_bot (fst scenario_ply1) = 0"
      "minimax scenario_bot (fst scenario_ply1) 0 False INT_MIN INT_MAX = 0"
    by code_simp+
  have ply3: "floodFill (fst scenario_ply3) (1, 0) = Inr 0"
      "floodFill (fst scenario_ply3) (2, 1) = Inr 0"
      "floodFill (fst scenario_ply3) (0, 0) = Inr 1"
      "floodFill (fst scenario_ply3) (2, 2) = Inr 4"
      "evaluate scenario_bot (fst scenario_ply3) = - 3"
    by code_simp+
  from v1 have "is_valid_move scenario_board (my_player scenario_bot) Down"
    by (simp only: st)
  with received s1 s3 positions ply1 ply3 show ?thesis
    by (intro conjI)
qed

text \<open>
  C4.  From a free, in-bounds start cell \<^verbatim>\<open>floodFill\<close> returns the number of
  free cells that paths of orthogonally adjacent free cells connect to the
  start: each such cell counts once (the number is the size of a set), the
  start is among them, and none of them is blocked or outside the grid.  On
  a grid without blocked cells the result is width times height, and when
  no neighbour of the start is free and in bounds the result is 1.
\<close>

theorem floodFill_reachable_area:
  assumes "isInsideGrid gameState start_pos" and "getGridCell gameState start_pos = 0"
  shows "floodFill gameState start_pos = Inr (int (card (reachable gameState start_pos))) \<and>
         start_pos \<in> reachable gameState start_pos \<and>
         reachable gameState start_pos \<subseteq>
           {pos. isInsideGrid gameState pos \<and> getGridCell gameState pos = 0} \<and>
         ((\<forall>pos. isInsideGrid gameState pos \<longrightarrow> getGridCell gameState pos = 0) \<longrightarrow>
            floodFill gameState start_pos =
              Inr (int (gridWidth gameState * gridHeight gameState))) \<and>
         ((\<forall>dir. \<not> (isInsideGrid gameState (vadd start_pos (getDirectionVector dir)) \<and>
                      getGridCell gameState (vadd start_pos (getDirectionVector dir)) = 0)) \<longrightarrow>
            floodFill gameState start_pos = Inr 1)"
proof (intro conjI impI)
  from assms have free: "start_pos \<in> free_cells gameState"
    by (simp add: free_cells_def)
  show "floodFill gameState start_pos = Inr (int (card (reachable gameState start_pos)))"
    by (rule floodFill_count)
  show "start_pos \<in> reachable gameState start_pos"
    unfolding reachable_def using free by (intro reach.source) simp_all
  show "reachable gameState start_pos \<subseteq>
          {pos. isInsideGrid gameState pos \<and> getGridCell gameState pos = 0}"
    using reachable_subset[of gameState start_pos] by (simp add: free_cells_def)
  show "floodFill gameState start_pos = Inr (int (gridWidth gameState * gridHeight gameState))"
    if "\<forall>pos. isInsideGrid gameState pos \<longrightarrow> getGridCell gameState pos = 0"
    using reachable_all_free[OF that assms(1)]
    by (simp add: floodFill_count inside_card)
  show "floodFill gameState start_pos = Inr 1"
    if alone: "\<forall>dir. \<not> (isInsideGrid gameState (vadd start_pos (getDirectionVector dir)) \<and>
                      getGridCell gameState (vadd start_pos (getDirectionVector dir)) = 0)"
  proof -
    have "\<forall>q. adjacent start_pos q \<longrightarrow> q \<notin> free_cells gameState"
    proof (intro allI impI)
      fix q assume "adjacent start_pos q"
      then obtain dir where "q = vadd start_pos (getDirectionVector dir)"
        unfolding adjacent_def by blast
      with alone show "q \<notin> free_cells gameState"
        by (simp add: free_cells_def)
    qed
    from reachable_isolated[OF free this] show ?thesis
      by (simp add: floodFill_count)
  qed
qed

theorem floodFill_reachable_area_witness:
  "isInsideGrid free_board (1, 1) \<and> getGridCell free_board (1, 1) = 0 \<and>
   floodFill free_board (1, 1) = Inr 9 \<and>
   isInsideGrid pocket_board (1, 1) \<and> getGridCell pocket_board (1, 1) = 0 \<and>
   floodFill pocket_board (1, 1) = Inr 1"
proof -
  have a: "isInsideGrid free_board (1, 1)" "getGridCell free_board (1, 1) = 0"
    by (simp_all add: free_board_def isInsideGrid_def getGridCell_def)
  have all: "\<forall>pos. isInsideGrid free_board pos \<longrightarrow> getGridCell free_board pos = 0"
    by (simp add: free_board_def getGridCell_def)
  have b: "isInsideGrid pocket_board (1, 1)" "getGridCell pocket_board (1, 1) = 0"
    by (simp_all add: pocket_board_def isInsideGrid_def getGridCell_def)
  have alone: "\<forall>dir. \<not> (isInsideGrid pocket_board (vadd (1, 1) (getDirectionVector dir)) \<and>
                      getGridCell pocket_board (vadd (1, 1) (getDirectionVector dir)) = 0)"
  proof
    fix dir
    show "\<not> (isInsideGrid pocket_board (vadd (1, 1) (getDirectionVector dir)) \<and>
              getGridCell pocket_board (vadd (1, 1) (getDirectionVector dir)) = 0)"
      by (cases dir) (simp_all add: pocket_board_def getGridCell_def)
  qed
  have size: "int (gridWidth free_board * gridHeight free_board) = 9"
    by (simp add: free_board_def)
  have "floodFill free_board (1, 1) = Inr (int (gridWidth free_board * gridHeight free_board))"
    using floodFill_reachable_area[OF a] all by blast
  then have "floodFill free_board (1, 1) = Inr 9"
    by (simp only: size)
  moreover have "floodFill pocket_board (1, 1) = Inr 1"
    using floodFill_reachable_area[OF b] alone by blast
  ultimately show ?thesis using a b by simp
qed

text \<open>
  C5.  \<^verbatim>\<open>is_valid_move\<close> answers true exactly when the cell at the player's
  position plus the unit vector of the direction is inside the grid and
  free; so it answers false whenever that cell is outside the grid or
  blocked.
\<close>

theorem is_valid_move_iff:
  "is_valid_move gameState player direction =
     (isInsideGrid gameState (vadd (position player) (getDirectionVector direction)) \<and>
      getGridCell gameState (vadd (position player) (getDirectionVector direction)) = 0)"
  by (simp add: is_valid_move_def Let_def)

text \<open>
  C6.  The claim: \<^verbatim>\<open>game_over\<close> answers true on a state exactly when
  neither player has a legal move in that state.  \<^verbatim>\<open>game_over\<close> is called
  by \<^verbatim>\<open>minimax\<close> on the states of the search, and tests the moves of the
  fields \<^verbatim>\<open>my_player\<close> and \<^verbatim>\<open>opponent\<close>, which the search never moves
  (lemma \<open>game_over_fields\<close>).  On \<open>corner_board\<close>, after the bot's move
  Down and the opponent's move Left, the bot stands at (0,1) and can go
  Down, the opponent stands at (1,2) and can go Up; yet \<^verbatim>\<open>game_over\<close>
  answers true, and \<^verbatim>\<open>minimax\<close> at depth 1 stops there and returns the
  evaluation.
\<close>

theorem game_over_reads_stale_positions:
  "corner_bot = receiveGameState idle_bot corner_board \<and>
   is_valid_move corner_board (my_player corner_bot) Down \<and>
   is_valid_move (fst corner_ply1) (opponent corner_bot) Left \<and>
   fst corner_ply2 \<in> search_states corner_bot \<and>
   position (snd corner_ply1) = (0, 1) \<and>
   position (snd corner_ply2) = (1, 2) \<and>
   is_valid_move (fst corner_ply2) (snd corner_ply1) Down \<and>
   is_valid_move (fst corner_ply2) (snd corner_ply2) Up \<and>
   game_over corner_bot (fst corner_ply2) \<and>
   minimax corner_bot (fst corner_ply2) 1 True INT_MIN INT_MAX =
     evaluate corner_bot (fst corner_ply2)"
proof -
  have received: "corner_bot = receiveGameState idle_bot corner_board"
    by (simp add: receiveGameState_def corner_bot_def idle_bot_def corner_board_def)
  have st: "state corner_bot = corner_board"
    by (simp add: corner_bot_def)
  have v1: "is_valid_move (state corner_bot) (my_player corner_bot) Down"
    by code_simp
  have v2: "is_valid_move (fst corner_ply1) (opponent corner_bot) Left"
    by code_simp
  have s1: "fst corner_ply1 \<in> search_states corner_bot"
    using search_states.self_move[OF search_states.root v1]
    by (simp add: corner_ply1_def st)
  have s2: "fst corner_ply2 \<in> search_states corner_bot"
    using search_states.opponent_move[OF s1 v2] by (simp add: corner_ply2_def)
  have moved: "position (snd corner_ply1) = (0, 1)"
      "position (snd corner_ply2) = (1, 2)"
      "is_valid_move (fst corner_ply2) (snd corner_ply1) Down"
      "is_valid_move (fst corner_ply2) (snd corner_ply2) Up"
    by code_simp+
  have over: "game_over corner_bot (fst corner_ply2)"
    by code_simp
  have stop: "minimax corner_bot (fst corner_ply2) 1 True INT_MIN INT_MAX =
      evaluate corner_bot (fst corner_ply2)"
    by code_simp
  from v1 have "is_valid_move corner_board (my_player corner_bot) Down"
    by (simp only: st)
  with received v2 s2 moved over stop show ?thesis
    by (intro conjI)
qed

text \<open>
  C7.  The claim: whenever the bot has a legal move, \<^verbatim>\<open>decideMove\<close> returns
  the first direction, in canonical order, whose score is the maximum over
  the legal directions.  The best score starts at \<open>INT_MIN\<close> and is replaced
  on strict improvement only, and \<open>INT_MIN\<close> is also a value that the search
  returns.  On \<open>board3\<close> the only legal direction is Down, its score is
  \<open>INT_MIN\<close>, and \<^verbatim>\<open>decideMove\<close> returns the default Up, which is not legal.
\<close>

theorem decideMove_returns_illegal_default:
  "is_valid_move (state bot3) (my_player bot3) Down \<and>
   \<not> is_valid_move (state bot3) (my_player bot3) Up \<and>
   \<not> is_valid_move (state bot3) (my_player bot3) Left \<and>
   \<not> is_valid_move (state bot3) (my_player bot3) Right \<and>
   getDirectionFromValue 1 = Down \<and>
   score_of bot3 1 = INT_MIN \<and>
   fst (decideMove bot3) = Up"
  by code_simp

text \<open>
  C8.  When no direction is legal for the bot, \<^verbatim>\<open>decideMove\<close> still returns
  a direction: the default Up, the first one in canonical order.
\<close>

theorem decideMove_no_legal_move:
  "(\<forall>d. \<not> is_valid_move (state b) (my_player b) d) \<Longrightarrow>
     fst (decideMove b) = Up \<and> Up = getDirectionFromValue 0"
  by (simp add: decideMove_def decideMove_loop_no_moves)

theorem decideMove_no_legal_move_witness:
  "\<not> is_valid_move (state bot2) (my_player bot2) Up \<and>
   \<not> is_valid_move (state bot2) (my_player bot2) Down \<and>
   \<not> is_valid_move (state bot2) (my_player bot2) Left \<and>
   \<not> is_valid_move (state bot2) (my_player bot2) Right \<and>
   fst (decideMove bot2) = Up"
proof -
  have none: "\<forall>d. \<not> is_valid_move (state bot2) (my_player bot2) d"
  proof
    fix d show "\<not> is_valid_move (state bot2) (my_player bot2) d"
      by (cases d)
        (simp_all add: is_valid_move_def bot2_def board2_def isInsideGrid_def getGridCell_def)
  qed
  from decideMove_no_legal_move[OF none] none show ?thesis by simp
qed

text \<open>
  C9.  \<^verbatim>\<open>decideMove\<close> leaves the bot's fields, and with them the supplied
  game state and both recorded players, as they were.  A move is applied to
  the copies handed to \<^verbatim>\<open>movePlayer\<close>: in the copy of the state the
  destination cell becomes 1 and every other cell, the dimensions and the
  player list stay; in the copy of the player the position becomes the
  destination and the name stays.
\<close>

theorem decideMove_frame:
  "snd (decideMove b) = b \<and>
   (let new_pos = vadd (position player) (getDirectionVector dir);
        moved = movePlayer gameState player dir
    in grid (fst moved) new_pos = 1 \<and>
       (\<forall>pos. pos \<noteq> new_pos \<longrightarrow> grid (fst moved) pos = grid gameState pos) \<and>
       gridWidth (fst moved) = gridWidth gameState \<and>
       gridHeight (fst moved) = gridHeight gameState \<and>
       players (fst moved) = players gameState \<and>
       position (snd moved) = new_pos \<and>
       name (snd moved) = name player)"
  by (simp add: decideMove_def decideMove_loop_bot movePlayer_def setGridCell_def Let_def)

theorem decideMove_frame_witness:
  "snd (decideMove bot3) = bot3 \<and>
   grid (fst (movePlayer board3 (my_player bot3) Down)) (0, 1) = 1 \<and>
   (0, 2) \<noteq> ((0, 1) :: Vector2i) \<and>
   grid (fst (movePlayer board3 (my_player bot3) Down)) (0, 2) = grid board3 (0, 2) \<and>
   position (snd (movePlayer board3 (my_player bot3) Down)) = (0, 1)"
  using decideMove_frame[of bot3 "my_player bot3" Down board3]
  by (simp add: Let_def bot3_def)

text \<open>
  C10.  \<^verbatim>\<open>floodFill\<close> returns an area for every start position, without
  ever indexing the marker out of range; when the start cell is outside the
  grid or blocked, the area is 0.
\<close>

theorem floodFill_total:
  "(\<exists>area. floodFill gameState start_pos = Inr area) \<and>
   (\<not> isInsideGrid gameState start_pos \<or> getGridCell gameState start_pos \<noteq> 0 \<longrightarrow>
      floodFill gameState start_pos = Inr 0)"
proof (intro conjI impI)
  show "\<exists>area. floodFill gameState start_pos = Inr area"
    by (simp add: floodFill_count)
  assume "\<not> isInsideGrid gameState start_pos \<or> getGridCell gameState start_pos \<noteq> 0"
  then have "start_pos \<notin> free_cells gameState"
    by (auto simp add: free_cells_def)
  from reachable_blocked[OF this] show "floodFill gameState start_pos = Inr 0"
    by (simp add: floodFill_count)
qed

theorem floodFill_total_witness:
  "\<not> isInsideGrid free_board (-1, 0) \<and> floodFill free_board (-1, 0) = Inr 0 \<and>
   getGridCell pocket_board (1, 0) \<noteq> 0 \<and> floodFill pocket_board (1, 0) = Inr 0"
proof -
  have a: "\<not> isInsideGrid free_board (-1, 0)"
    by (simp add: isInsideGrid_def)
  have b: "getGridCell pocket_board (1, 0) \<noteq> 0"
    by (simp add: getGridCell_def pocket_board_def)
  show ?thesis
    using a b floodFill_total[of free_board "(-1, 0)"] floodFill_total[of pocket_board "(1, 0)"]
    by simp
qed

end
